theory Spec2Isabelle
  imports Complex_Main "HOL-Library.AList" "HOL-Library.Char_ord" "HOL-Library.List_Lexorder"
begin

section \<open>Data model\<close>

text \<open>
  The graph of \<^verbatim>\<open>graphs.py\<close> is a Python dict from vertex keys to per-vertex dicts.
  Keys are the hashable values the repository uses: integers (the default dict of
  \<^verbatim>\<open>LichtenbergGraph.__init__\<close>, the literal \<^verbatim>\<open>0\<close> of \<^verbatim>\<open>pick_expansion_vertex\<close>) and
  strings (the driver's \<^verbatim>\<open>"0"\<close>, \<^verbatim>\<open>"1"\<close>, and \<^verbatim>\<open>str(len(...))\<close>). An integer and a string are
  never equal in Python, as the two constructors are never equal here.

  A dict keeps insertion order and has unique keys, so the graph is an association list;
  \<open>map_of\<close> is the lookup, \<open>AList.update\<close> is item assignment (in place for a present key,
  appended for a new one). The association lists of well-formed states have distinct keys.

  Python floats are modelled as exact reals, with two exceptions: the increment of the
  activation is the rounded addition of binary64 numbers, and a net force that is nan is
  a value of its own in \<^verbatim>\<open>pick_expansion_vertex\<close>. Infinities are outside the model.
\<close>

datatype key = KInt int | KStr string

datatype error = KeyError | ValueError | NotANumber | NoMoreDraws

text \<open>
  A vertex of the base class \<^verbatim>\<open>Graph\<close> has the entries \<^verbatim>\<open>"weight"\<close> and \<^verbatim>\<open>"neighbors"\<close>;
  \<^verbatim>\<open>LichtenbergGraph\<close> adds \<^verbatim>\<open>"loc"\<close> and \<^verbatim>\<open>"burnt"\<close>. The functions of the base class
  are polymorphic in the extension, as the Python methods are inherited.
\<close>

record gvertex =
  weight :: real
  neighbors :: "key list"

record lvertex = gvertex +
  loc :: "real \<times> real"
  burnt :: real

type_synonym 'a graph = "(key \<times> 'a gvertex_scheme) list"

type_synonym lgraph = "(key \<times> lvertex) list"

section \<open>The class Graph (graphs.py)\<close>

definition vertices :: "'a graph \<Rightarrow> key list" where
  "vertices graph = map fst graph"

text \<open>\<^verbatim>\<open>Graph.add_vertex\<close>: the vertex is created only when the key is absent.\<close>

definition Graph_add_vertex :: "(key \<times> gvertex) list \<Rightarrow> key \<Rightarrow> key list option \<Rightarrow> real \<Rightarrow> (key \<times> gvertex) list" where
  "Graph_add_vertex graph vertex neigh w =
     (let neigh' = (case neigh of None \<Rightarrow> [] | Some ns \<Rightarrow> ns) in
      if map_of graph vertex = None
      then AList.update vertex \<lparr>weight = w, neighbors = neigh'\<rparr> graph
      else graph)"

definition set_weight :: "'a graph \<Rightarrow> key \<Rightarrow> real \<Rightarrow> error + 'a graph" where
  "set_weight graph vertex w =
     (case map_of graph vertex of
        None \<Rightarrow> Inl KeyError
      | Some v \<Rightarrow> Inr (AList.update vertex (v\<lparr>weight := w\<rparr>) graph))"

text \<open>
  \<^verbatim>\<open>Graph.__generate_edges\<close>: an edge is a Python set of one or two keys; the list of
  edges grows by \<^verbatim>\<open>append\<close> when the set is not yet in it.
\<close>

fun edges_of_vertex :: "key \<Rightarrow> key list \<Rightarrow> key set list \<Rightarrow> key set list" where
  "edges_of_vertex vertex [] edges = edges"
| "edges_of_vertex vertex (neighbor # rest) edges =
     edges_of_vertex vertex rest
       (if {neighbor, vertex} \<notin> set edges then edges @ [{vertex, neighbor}] else edges)"

fun edges_loop :: "'a graph \<Rightarrow> key set list \<Rightarrow> key set list" where
  "edges_loop [] edges = edges"
| "edges_loop ((vertex, v) # rest) edges =
     edges_loop rest (edges_of_vertex vertex (neighbors v) edges)"

definition generate_edges :: "'a graph \<Rightarrow> key set list" where
  "generate_edges graph = edges_loop graph []"

definition edges :: "'a graph \<Rightarrow> key set list" where
  "edges graph = generate_edges graph"

text \<open>
  \<^verbatim>\<open>Graph.find_all_paths\<close>. The Python recursion runs inside a loop over the neighbours
  of the start vertex; the loop is the second function. The argument \<open>path\<close> is the
  parameter of the Python method (\<^verbatim>\<open>[]\<close> by default), extended by the start vertex first.
  The test \<^verbatim>\<open>start_vertex == end_vertex\<close> comes before the membership test.
\<close>

function find_all_paths :: "'a graph \<Rightarrow> key \<Rightarrow> key \<Rightarrow> key list \<Rightarrow> key list list"
  and extend_paths :: "'a graph \<Rightarrow> key \<Rightarrow> key list \<Rightarrow> key list \<Rightarrow> key list list"
where
  "find_all_paths graph start_vertex end_vertex path =
     (if start_vertex = end_vertex then [path @ [start_vertex]]
      else case map_of graph start_vertex of
        None \<Rightarrow> []
      | Some v \<Rightarrow> extend_paths graph end_vertex (path @ [start_vertex]) (neighbors v))"
| "extend_paths graph end_vertex path [] = []"
| "extend_paths graph end_vertex path (vertex # rest) =
     (if vertex \<notin> set path then find_all_paths graph vertex end_vertex path else [])
     @ extend_paths graph end_vertex path rest"
  by pat_completeness auto

definition paths_measure1 ::
  "'a graph \<times> key \<times> key \<times> key list + 'a graph \<times> key \<times> key list \<times> key list \<Rightarrow> nat" where
  "paths_measure1 x = (case x of
      Inl (g, s, e, p) \<Rightarrow>
        2 * card (fst ` set g - set (p @ [s])) + (if s \<in> fst ` set g then 1 else 0)
    | Inr (g, e, p, vs) \<Rightarrow> 2 * card (fst ` set g - set p))"

definition paths_measure2 ::
  "'a graph \<times> key \<times> key \<times> key list + 'a graph \<times> key \<times> key list \<times> key list \<Rightarrow> nat" where
  "paths_measure2 x = (case x of Inl _ \<Rightarrow> 0 | Inr (g, e, p, vs) \<Rightarrow> Suc (length vs))"

lemma card_diff_insert_less:
  assumes "finite A" "v \<in> A" "v \<notin> B"
  shows "card (A - insert v B) < card (A - B)"
proof -
  have "A - insert v B = (A - B) - {v}" by auto
  moreover have "v \<in> A - B" using assms by simp
  moreover have "finite (A - B)" using assms by simp
  ultimately show ?thesis using card_Diff1_less [of "A - B" v] by simp
qed

lemma diff_insert_absent:
  assumes "v \<notin> A"
  shows "A - insert v B = A - B"
  using assms by auto

termination find_all_paths
proof (relation "measures [paths_measure1, paths_measure2]", goal_cases)
  case 1
  show ?case by simp
next
  case (2 graph start_vertex end_vertex path v)
  then have "start_vertex \<in> fst ` set graph"
    by (metis map_of_SomeD fst_conv image_eqI)
  then show ?case by (simp add: paths_measure1_def paths_measure2_def)
next
  case (3 graph end_vertex path vertex rest)
  show ?case
  proof (cases "vertex \<in> fst ` set graph")
    case True
    have "card (fst ` set graph - insert vertex (set path)) < card (fst ` set graph - set path)"
      using True 3 by (intro card_diff_insert_less) auto
    then show ?thesis using True by (simp add: paths_measure1_def paths_measure2_def)
  next
    case False
    then show ?thesis
      by (simp add: paths_measure1_def paths_measure2_def diff_insert_absent)
  qed
next
  case (4 graph end_vertex path vertex rest)
  show ?case by (simp add: paths_measure1_def paths_measure2_def)
qed

declare find_all_paths.simps [simp del]

text \<open>
  \<^verbatim>\<open>Graph.get_path_weights\<close> sums \<^verbatim>\<open>graph[vertex]["weight"]\<close> along each path; the lookup
  of a key that is not in the dict raises \<^verbatim>\<open>KeyError\<close>.
\<close>

fun path_weight :: "'a graph \<Rightarrow> key list \<Rightarrow> error + real" where
  "path_weight graph [] = Inr 0"
| "path_weight graph (vertex # rest) =
     (case map_of graph vertex of
        None \<Rightarrow> Inl KeyError
      | Some v \<Rightarrow> (case path_weight graph rest of
                     Inl e \<Rightarrow> Inl e
                   | Inr s \<Rightarrow> Inr (weight v + s)))"

fun path_weights :: "'a graph \<Rightarrow> key list list \<Rightarrow> error + real list" where
  "path_weights graph [] = Inr []"
| "path_weights graph (p # ps) =
     (case path_weight graph p of
        Inl e \<Rightarrow> Inl e
      | Inr w \<Rightarrow> (case path_weights graph ps of
                     Inl e \<Rightarrow> Inl e
                   | Inr ws \<Rightarrow> Inr (w # ws)))"

definition get_path_weights :: "'a graph \<Rightarrow> key \<Rightarrow> key \<Rightarrow> error + real list" where
  "get_path_weights graph start_vertex end_vertex =
     path_weights graph (find_all_paths graph start_vertex end_vertex [])"

text \<open>
  \<^verbatim>\<open>max\<close> of a list (\<^verbatim>\<open>ValueError\<close> on the empty list, the first maximum otherwise) and
  \<^verbatim>\<open>list.index\<close> (the first position of a value).
\<close>

fun py_max :: "real list \<Rightarrow> error + real" where
  "py_max [] = Inl ValueError"
| "py_max (x # xs) = Inr (foldl (\<lambda>m y. if m < y then y else m) x xs)"

fun py_index :: "real list \<Rightarrow> real \<Rightarrow> error + nat" where
  "py_index [] x = Inl ValueError"
| "py_index (y # ys) x =
     (if y = x then Inr 0
      else case py_index ys x of Inl e \<Rightarrow> Inl e | Inr i \<Rightarrow> Inr (Suc i))"

text \<open>\<^verbatim>\<open>Graph.find_shortest_path\<close>: the path at the index of the largest weight.\<close>

definition find_shortest_path :: "'a graph \<Rightarrow> key \<Rightarrow> key \<Rightarrow> error + key list" where
  "find_shortest_path graph start_vertex end_vertex =
     (let paths = find_all_paths graph start_vertex end_vertex [] in
      case get_path_weights graph start_vertex end_vertex of
        Inl e \<Rightarrow> Inl e
      | Inr weights \<Rightarrow>
          (case py_max weights of
             Inl e \<Rightarrow> Inl e
           | Inr m \<Rightarrow> (case py_index weights m of
                          Inl e \<Rightarrow> Inl e
                        | Inr i \<Rightarrow> Inr (paths ! i))))"

section \<open>The class LichtenbergGraph (inverse_square_law_simple.py)\<close>

type_synonym point = "real \<times> real"

text \<open>The class attribute \<^verbatim>\<open>r = 1\<close>.\<close>

definition r :: real where
  "r = 1"

text \<open>
  Arithmetic of numpy arrays of two components, and \<^verbatim>\<open>numpy.linalg.norm\<close> of such an
  array.
\<close>

definition vadd :: "point \<Rightarrow> point \<Rightarrow> point" where
  "vadd a b = (fst a + fst b, snd a + snd b)"

definition vsub :: "point \<Rightarrow> point \<Rightarrow> point" where
  "vsub a b = (fst a - fst b, snd a - snd b)"

definition norm_np :: "point \<Rightarrow> real" where
  "norm_np a = sqrt ((fst a)\<^sup>2 + (snd a)\<^sup>2)"

definition locations :: "lgraph \<Rightarrow> point list" where
  "locations graph = map (\<lambda>(vertex, v). loc v) graph"

text \<open>
  \<^verbatim>\<open>min(dists, key=dists.get)\<close>: the first key of the smallest value, \<^verbatim>\<open>ValueError\<close> on an
  empty dict.
\<close>

fun py_min_key :: "(key \<times> real) list \<Rightarrow> error + key" where
  "py_min_key [] = Inl ValueError"
| "py_min_key ((k, d) # rest) =
     Inr (fst (foldl (\<lambda>(bk, bd) (k', d'). if d' < bd then (k', d') else (bk, bd)) (k, d) rest))"

definition get_nearest_vertex :: "lgraph \<Rightarrow> point \<Rightarrow> error + key" where
  "get_nearest_vertex graph new_loc =
     (let dists = map (\<lambda>(vertex, v). (vertex, norm_np (vsub (loc v) new_loc))) graph
      in py_min_key dists)"

text \<open>
  \<^verbatim>\<open>is_too_close\<close> returns \<^verbatim>\<open>False\<close> (here \<open>None\<close>) or the key that \<^verbatim>\<open>get_nearest_vertex\<close>
  returns. The first argument is the whole dict, the second the part of it that the loop
  has still to visit.
\<close>

fun is_too_close_loop :: "lgraph \<Rightarrow> lgraph \<Rightarrow> point \<Rightarrow> error + key option" where
  "is_too_close_loop graph [] new_loc = Inr None"
| "is_too_close_loop graph ((vertex, v) # rest) new_loc =
     (if norm_np (vsub new_loc (loc v)) < r * (14 / 10)
      then (case get_nearest_vertex graph new_loc of
              Inl e \<Rightarrow> Inl e
            | Inr nearest \<Rightarrow> Inr (Some nearest))
      else is_too_close_loop graph rest new_loc)"

definition is_too_close :: "lgraph \<Rightarrow> point \<Rightarrow> error + key option" where
  "is_too_close graph new_loc = is_too_close_loop graph graph new_loc"

text \<open>
  \<^verbatim>\<open>LichtenbergGraph.add_vertex\<close>: the call of the base method, which creates the entry
  only for an absent key (the entry is written here with the two new fields that the next
  two statements assign), then the assignment of \<^verbatim>\<open>"burnt"\<close> and the assignment of
  \<^verbatim>\<open>"loc"\<close>, both outside the test for the key.
\<close>

definition add_vertex :: "lgraph \<Rightarrow> key \<Rightarrow> key list option \<Rightarrow> point option \<Rightarrow> real \<Rightarrow> lgraph" where
  "add_vertex graph vertex neigh pos w =
     (let neigh' = (case neigh of None \<Rightarrow> [] | Some ns \<Rightarrow> ns);
          new_loc = (case pos of None \<Rightarrow> (0, 0) | Some p \<Rightarrow> p);
          graph1 = (if map_of graph vertex = None
                    then AList.update vertex
                           \<lparr>weight = w, neighbors = neigh', loc = new_loc, burnt = 0\<rparr> graph
                    else graph);
          graph2 = AList.map_entry vertex (\<lambda>v. v\<lparr>burnt := 0\<rparr>) graph1;
          graph3 = AList.map_entry vertex (\<lambda>v. v\<lparr>loc := new_loc\<rparr>) graph2
      in graph3)"

text \<open>
  \<^verbatim>\<open>force\<close>. Both vertices are looked up (\<^verbatim>\<open>KeyError\<close>). For two vertices at the same
  location numpy divides zero by zero and yields an array of nan without raising: the
  value \<open>Inl NotANumber\<close> stands for that array. A sum with a nan term is nan, so the loop
  of \<^verbatim>\<open>net_force\<close> ends in \<open>Inl NotANumber\<close> as well; a key that is not in the dict raises
  in the first call of \<^verbatim>\<open>force\<close>, before any division.
\<close>

definition force :: "lgraph \<Rightarrow> key \<Rightarrow> key \<Rightarrow> error + point" where
  "force graph vertex1 vertex2 =
     (case map_of graph vertex2 of
        None \<Rightarrow> Inl KeyError
      | Some v2 \<Rightarrow>
          (case map_of graph vertex1 of
             None \<Rightarrow> Inl KeyError
           | Some v1 \<Rightarrow>
               (let dx = fst (loc v2) - fst (loc v1);
                    dy = snd (loc v2) - snd (loc v1);
                    q1 = weight v1;
                    q2 = weight v2
                in if dx\<^sup>2 + dy\<^sup>2 = 0 then Inl NotANumber
                   else Inr ((q1 + q2) * dx / (dx\<^sup>2 + dy\<^sup>2) powr (3 / 2),
                             (q1 + q2) * dy / (dx\<^sup>2 + dy\<^sup>2) powr (3 / 2)))))"

fun net_force_loop :: "lgraph \<Rightarrow> key list \<Rightarrow> key \<Rightarrow> point \<Rightarrow> error + point" where
  "net_force_loop graph [] vertex1 F = Inr F"
| "net_force_loop graph (vertex # rest) vertex1 F =
     (if vertex \<noteq> vertex1
      then (case force graph vertex vertex1 of
              Inl e \<Rightarrow> Inl e
            | Inr f \<Rightarrow> net_force_loop graph rest vertex1 (vadd F f))
      else net_force_loop graph rest vertex1 F)"

definition net_force :: "lgraph \<Rightarrow> key \<Rightarrow> error + point" where
  "net_force graph vertex1 = net_force_loop graph (vertices graph) vertex1 (0, 0)"

text \<open>
  \<^verbatim>\<open>net_forces\<close>: the dict of the net forces, in the order of the graph. A force that is
  nan is stored as \<open>None\<close>.
\<close>

fun net_forces_loop :: "lgraph \<Rightarrow> key list \<Rightarrow> error + (key \<times> point option) list" where
  "net_forces_loop graph [] = Inr []"
| "net_forces_loop graph (vertex # rest) =
     (case net_force graph vertex of
        Inl e \<Rightarrow>
          (if e = NotANumber
           then (case net_forces_loop graph rest of
                   Inl e' \<Rightarrow> Inl e'
                 | Inr fs \<Rightarrow> Inr ((vertex, None) # fs))
           else Inl e)
      | Inr F \<Rightarrow> (case net_forces_loop graph rest of
                     Inl e \<Rightarrow> Inl e
                   | Inr fs \<Rightarrow> Inr ((vertex, Some F) # fs)))"

definition net_forces :: "lgraph \<Rightarrow> error + (key \<times> point option) list" where
  "net_forces graph = net_forces_loop graph (vertices graph)"

text \<open>
  Floats that may be nan (\<open>None\<close>), as \<^verbatim>\<open>pick_expansion_vertex\<close> computes with them: the
  norm of a nan array, a sum and a difference with a nan operand are nan, and the
  comparison of nan with zero is false.
\<close>

definition norm_nan :: "point option \<Rightarrow> real option" where
  "norm_nan F = map_option norm_np F"

definition nan_add :: "real option \<Rightarrow> real option \<Rightarrow> real option" where
  "nan_add a b = (case a of None \<Rightarrow> None | Some x \<Rightarrow> map_option (\<lambda>y. x + y) b)"

definition nan_sub :: "real option \<Rightarrow> real option \<Rightarrow> real option" where
  "nan_sub a b = (case a of None \<Rightarrow> None | Some x \<Rightarrow> map_option (\<lambda>y. x - y) b)"

definition nan_le_zero :: "real option \<Rightarrow> bool" where
  "nan_le_zero a = (case a of None \<Rightarrow> False | Some x \<Rightarrow> x \<le> 0)"

text \<open>
  Randomness. Every call \<^verbatim>\<open>rand(a, b)\<close> takes the next element of a list of draws, which
  holds the values the calls return, in the order of the calls. A run that needs more
  draws than the list holds ends in \<open>NoMoreDraws\<close>: the list is the fuel of the retry
  recursion of \<^verbatim>\<open>make_new_vertex\<close>.

  The loop of \<^verbatim>\<open>pick_expansion_vertex\<close> over the dict of forces, with the remaining mass
  \<open>P\<close>; the statement after the loop is \<^verbatim>\<open>return 0\<close>. \<^verbatim>\<open>sum\<close> adds the magnitudes from the
  left, starting from zero.
\<close>

fun roulette :: "real option \<Rightarrow> (key \<times> point option) list \<Rightarrow> key" where
  "roulette P [] = KInt 0"
| "roulette P ((vertex, F) # rest) =
     (if nan_le_zero (nan_sub P (norm_nan F)) then vertex
      else roulette (nan_sub P (norm_nan F)) rest)"

definition pick_expansion_vertex :: "lgraph \<Rightarrow> real list \<Rightarrow> error + key \<times> real list" where
  "pick_expansion_vertex graph draws =
     (case net_forces graph of
        Inl e \<Rightarrow> Inl e
      | Inr forces \<Rightarrow>
          (let total_force = foldl nan_add (Some 0) (map (\<lambda>(vertex, F). norm_nan F) forces) in
           case draws of
             [] \<Rightarrow> Inl NoMoreDraws
           | u # draws' \<Rightarrow> Inr (roulette (map_option (\<lambda>t. u * t) total_force) forces, draws')))"

text \<open>
  \<^verbatim>\<open>pick_expansion_point\<close>: four draws, in the order of the calls. The second assignment
  reads \<^verbatim>\<open>F[0]\<close> after the first assignment has changed it. A zero vector makes
  \<^verbatim>\<open>r/norm(F)\<close> infinite and the product nan, without raising.
\<close>

definition pick_expansion_point :: "lgraph \<Rightarrow> key \<Rightarrow> real list \<Rightarrow> error + point \<times> real list" where
  "pick_expansion_point graph vertex draws =
     (case net_force graph vertex of
        Inl e \<Rightarrow> Inl e
      | Inr F \<Rightarrow>
          (case draws of
             u1 # u2 # u3 # u4 # draws' \<Rightarrow>
               (let F0 = fst F * (u1 + snd F * u2);
                    F1 = snd F * (u3 + F0 * u4);
                    n = norm_np (F0, F1)
                in case map_of graph vertex of
                     None \<Rightarrow> Inl KeyError
                   | Some v \<Rightarrow>
                       if n = 0 then Inl NotANumber
                       else Inr (vadd (loc v) (F0 * (r / n), F1 * (r / n)), draws'))
           | _ \<Rightarrow> Inl NoMoreDraws))"

text \<open>
  A method that changes the dict either returns, or raises with the dict as it is at
  that moment.
\<close>

datatype 'a result = Returned 'a | Raised error lgraph

text \<open>\<^verbatim>\<open>str\<close> of an integer, for \<^verbatim>\<open>str(len(self._graph_dict))\<close> and for numpy's coercion.\<close>

definition digit :: "nat \<Rightarrow> char" where
  "digit d = ''0123456789'' ! d"

fun str_nat :: "nat \<Rightarrow> string" where
  "str_nat n = (if n < 10 then [digit n] else str_nat (n div 10) @ [digit (n mod 10)])"

declare str_nat.simps [simp del]

definition str_int :: "int \<Rightarrow> string" where
  "str_int i = (if i < 0 then CHR ''-'' # str_nat (nat (- i)) else str_nat (nat i))"

text \<open>
  \<^verbatim>\<open>np.setdiff1d(list(graph.keys()), path)\<close>. Both arguments become numpy arrays. A list
  that holds a string becomes an array of strings, its integers printed in decimal; the
  result is the sorted array of the distinct elements of the first array that are not in
  the second. When \<^verbatim>\<open>set_active_states\<close> reaches this call, the path ends in \<^verbatim>\<open>"0"\<close>, which
  is a key of the dict, so both arrays are arrays of strings.
\<close>

definition is_int :: "key \<Rightarrow> bool" where
  "is_int k = (case k of KInt n \<Rightarrow> True | KStr s \<Rightarrow> False)"

definition np_str :: "key \<Rightarrow> string" where
  "np_str k = (case k of KInt n \<Rightarrow> str_int n | KStr s \<Rightarrow> s)"

definition the_int :: "key \<Rightarrow> int" where
  "the_int k = (case k of KInt n \<Rightarrow> n | KStr s \<Rightarrow> 0)"

definition setdiff1d :: "key list \<Rightarrow> key list \<Rightarrow> key list" where
  "setdiff1d ar1 ar2 =
     (if list_all is_int (ar1 @ ar2)
      then map KInt (filter (\<lambda>n. n \<notin> set (map the_int ar2)) (sort (remdups (map the_int ar1))))
      else map KStr (filter (\<lambda>s. s \<notin> set (map np_str ar2)) (sort (remdups (map np_str ar1)))))"

text \<open>
  The activation \<^verbatim>\<open>"burnt"\<close> is a binary64 number, and \<^verbatim>\<open>graph[vertex]["burnt"] += .005\<close> is
  one addition of binary64 numbers: the exact sum, rounded to the nearest number with a
  significand of 53 bits, a tie to the one with an even significand. \<open>round_to k y\<close> rounds \<open>y\<close>
  to a multiple of \<open>2 ^ k\<close>, and \<open>double_round\<close> takes the exponent of the result from the
  magnitude of \<open>y\<close> (and never below that of the subnormal numbers). \<open>c005\<close> is the value of the
  literal \<^verbatim>\<open>.005\<close>, the binary64 number nearest to \<open>5/1000\<close>. The weights stay exact numbers in
  this model.
\<close>

definition round_to :: "int \<Rightarrow> real \<Rightarrow> real" where
  "round_to k y =
     (let m = y / 2 powr (real_of_int k); q = \<lfloor>m\<rfloor>
      in (if m - of_int q < 1 / 2 \<or> (m - of_int q = 1 / 2 \<and> even q)
          then of_int q else of_int (q + 1)) * 2 powr (real_of_int k))"

definition double_round :: "real \<Rightarrow> real" where
  "double_round y =
     (if y = 0 then 0 else round_to (max (\<lfloor>log 2 \<bar>y\<bar>\<rfloor> - 52) (- 1074)) y)"

definition c005 :: real where
  "c005 = 5764607523034235 / 2 ^ 60"

text \<open>
  \<^verbatim>\<open>set_active_states\<close>: the body of the loop over the path, the body of the loop over the
  other vertices, and the method. The root is the string \<^verbatim>\<open>"0"\<close>.
\<close>

definition reinforce_vertex :: "lgraph \<Rightarrow> key \<Rightarrow> lgraph result" where
  "reinforce_vertex graph vertex =
     (case map_of graph vertex of
        None \<Rightarrow> Raised KeyError graph
      | Some v \<Rightarrow>
          (let graph1 = (if burnt v < 15
                         then AList.map_entry vertex
                                (\<lambda>v. v\<lparr>burnt := double_round (burnt v + c005)\<rparr>) graph
                         else graph)
           in if vertex \<noteq> KStr ''0''
              then (if weight v < 1
                    then Returned (AList.map_entry vertex (\<lambda>v. v\<lparr>weight := 1\<rparr>) graph1)
                    else if weight v < 2
                    then Returned (AList.map_entry vertex (\<lambda>v. v\<lparr>weight := weight v * (11 / 10)\<rparr>) graph1)
                    else Returned graph1)
              else Returned graph1))"

fun reinforce_path :: "lgraph \<Rightarrow> key list \<Rightarrow> lgraph result" where
  "reinforce_path graph [] = Returned graph"
| "reinforce_path graph (vertex # rest) =
     (case reinforce_vertex graph vertex of
        Raised e g \<Rightarrow> Raised e g
      | Returned graph' \<Rightarrow> reinforce_path graph' rest)"

definition decay_vertex :: "lgraph \<Rightarrow> key \<Rightarrow> lgraph result" where
  "decay_vertex graph vertex =
     (case map_of graph vertex of
        None \<Rightarrow> Raised KeyError graph
      | Some v \<Rightarrow>
          if weight v > 25 / 1000
          then Returned (AList.map_entry vertex (\<lambda>v. v\<lparr>weight := weight v - 25 / 1000\<rparr>) graph)
          else Returned graph)"

fun decay_notpath :: "lgraph \<Rightarrow> key list \<Rightarrow> lgraph result" where
  "decay_notpath graph [] = Returned graph"
| "decay_notpath graph (vertex # rest) =
     (case decay_vertex graph vertex of
        Raised e g \<Rightarrow> Raised e g
      | Returned graph' \<Rightarrow> decay_notpath graph' rest)"

definition set_active_states :: "lgraph \<Rightarrow> key \<Rightarrow> lgraph result" where
  "set_active_states graph vertex =
     (case find_shortest_path graph vertex (KStr ''0'') of
        Inl e \<Rightarrow> Raised e graph
      | Inr path \<Rightarrow>
          (let notpath = setdiff1d (vertices graph) path in
           case reinforce_path graph path of
             Raised e g \<Rightarrow> Raised e g
           | Returned graph1 \<Rightarrow> decay_notpath graph1 notpath))"

text \<open>
  The truth value of what \<^verbatim>\<open>is_too_close\<close> returns: \<^verbatim>\<open>False\<close>, the integer \<^verbatim>\<open>0\<close> and the
  empty string are false.
\<close>

definition truthy :: "key option \<Rightarrow> bool" where
  "truthy x = (case x of
      None \<Rightarrow> False
    | Some (KInt n) \<Rightarrow> n \<noteq> 0
    | Some (KStr s) \<Rightarrow> s \<noteq> [])"

lemma pick_expansion_vertex_draws:
  assumes "pick_expansion_vertex graph draws = Inr (v, draws1)"
  shows "length draws1 < length draws"
  using assms
  by (auto simp: pick_expansion_vertex_def Let_def split: sum.splits list.splits)

lemma pick_expansion_point_draws:
  assumes "pick_expansion_point graph v draws = Inr (p, draws1)"
  shows "length draws1 < length draws"
  using assms
  by (auto simp: pick_expansion_point_def Let_def split: sum.splits list.splits option.splits if_splits)

text \<open>
  \<^verbatim>\<open>make_new_vertex\<close>. The two calls of \<^verbatim>\<open>is_too_close\<close> in the condition have the same
  argument and the same result. The retry is the recursive call; the call of
  \<^verbatim>\<open>set_active_states\<close> follows the \<^verbatim>\<open>if\<close> statement, in both of its branches.
\<close>

function make_new_vertex :: "lgraph \<Rightarrow> real list \<Rightarrow> (lgraph \<times> real list) result" where
  "make_new_vertex graph draws =
     (case pick_expansion_vertex graph draws of
        Inl e \<Rightarrow> Raised e graph
      | Inr (expansion_vertex, draws1) \<Rightarrow>
          (case pick_expansion_point graph expansion_vertex draws1 of
             Inl e \<Rightarrow> Raised e graph
           | Inr (expansion_point, draws2) \<Rightarrow>
               (case is_too_close graph expansion_point of
                  Inl e \<Rightarrow> Raised e graph
                | Inr near \<Rightarrow>
                    (case (if truthy near \<and> Some expansion_vertex \<noteq> near
                           then make_new_vertex graph draws2
                           else Returned
                                  (add_vertex graph (KStr (str_nat (length graph)))
                                     (Some [expansion_vertex]) (Some expansion_point) 1,
                                   draws2)) of
                       Raised e g \<Rightarrow> Raised e g
                     | Returned (graph', draws3) \<Rightarrow>
                         (case set_active_states graph' expansion_vertex of
                            Raised e g \<Rightarrow> Raised e g
                          | Returned graph'' \<Rightarrow> Returned (graph'', draws3))))))"
  by pat_completeness auto

termination make_new_vertex
proof (relation "measure (\<lambda>(graph, draws). length draws)", goal_cases)
  case 1
  show ?case by simp
next
  case (2 graph draws x2 expansion_vertex draws1 x2a expansion_point draws2 near)
  from 2 have "length draws1 < length draws"
    using pick_expansion_vertex_draws [of graph draws expansion_vertex draws1] by simp
  moreover from 2 have "length draws2 < length draws1"
    using pick_expansion_point_draws [of graph expansion_vertex draws1 expansion_point draws2] by simp
  ultimately show ?case by simp
qed

declare make_new_vertex.simps [simp del]

text \<open>
  A growth step as a sequence of attempts on the unchanged graph: the expansion vertices of
  the attempts that are discarded, in the order of the attempts, then the expansion
  vertex and the expansion point of the attempt that inserts, and the draws that are left.
  The selection is the one of \<^verbatim>\<open>make_new_vertex\<close>.
\<close>

function attempts :: "lgraph \<Rightarrow> real list \<Rightarrow> error + (key list \<times> key \<times> point \<times> real list)" where
  "attempts graph draws =
     (case pick_expansion_vertex graph draws of
        Inl e \<Rightarrow> Inl e
      | Inr (expansion_vertex, draws1) \<Rightarrow>
          (case pick_expansion_point graph expansion_vertex draws1 of
             Inl e \<Rightarrow> Inl e
           | Inr (expansion_point, draws2) \<Rightarrow>
               (case is_too_close graph expansion_point of
                  Inl e \<Rightarrow> Inl e
                | Inr near \<Rightarrow>
                    if truthy near \<and> Some expansion_vertex \<noteq> near
                    then (case attempts graph draws2 of
                            Inl e \<Rightarrow> Inl e
                          | Inr (discarded, v, p, rest) \<Rightarrow>
                              Inr (expansion_vertex # discarded, v, p, rest))
                    else Inr ([], expansion_vertex, expansion_point, draws2))))"
  by pat_completeness auto

termination attempts
proof (relation "measure (\<lambda>(graph, draws). length draws)", goal_cases)
  case 1
  show ?case by simp
next
  case (2 graph draws x2 expansion_vertex draws1 x2a expansion_point draws2 near)
  from 2 have "length draws1 < length draws"
    using pick_expansion_vertex_draws [of graph draws expansion_vertex draws1] by simp
  moreover from 2 have "length draws2 < length draws1"
    using pick_expansion_point_draws [of graph expansion_vertex draws1 expansion_point draws2] by simp
  ultimately show ?case by simp
qed

declare attempts.simps [simp del]

text \<open>Reinforcement passes one after the other, each seeded at one vertex of the list.\<close>

fun reinforce_all :: "lgraph \<Rightarrow> key list \<Rightarrow> lgraph result" where
  "reinforce_all graph [] = Returned graph"
| "reinforce_all graph (seed # seeds) =
     (case set_active_states graph seed of
        Raised e g \<Rightarrow> Raised e g
      | Returned graph' \<Rightarrow> reinforce_all graph' seeds)"

section \<open>Well-formedness and example graphs\<close>

text \<open>A graph without dangling references: every neighbour is a key of the graph.\<close>

definition closed_graph :: "'a graph \<Rightarrow> bool" where
  "closed_graph g = (\<forall>(k, v) \<in> set g. set (neighbors v) \<subseteq> set (vertices g))"

text \<open>Small graphs on which the theorems below are evaluated.\<close>

definition graph_abc :: "(key \<times> gvertex) list" where
  "graph_abc =
     [(KStr ''a'', \<lparr>weight = 1, neighbors = [KStr ''b'', KStr ''c'']\<rparr>),
      (KStr ''b'', \<lparr>weight = 1, neighbors = [KStr ''a'', KStr ''b'']\<rparr>),
      (KStr ''c'', \<lparr>weight = 2, neighbors = [KStr ''a'']\<rparr>)]"




text \<open>
  Two vertices added with the default position: \<^verbatim>\<open>add_vertex("0")\<close> and \<^verbatim>\<open>add_vertex("1")\<close>
  on the empty graph put both at \<open>(0, 0)\<close>.
\<close>

definition graph_coincident :: lgraph where
  "graph_coincident =
     add_vertex (add_vertex [] (KStr ''0'') None None 1) (KStr ''1'') None None 1"

text \<open>The driver's initial graph after a first reinforcement of the root.\<close>

definition graph_burnt :: lgraph where
  "graph_burnt =
     [(KStr ''0'', \<lparr>weight = 5, neighbors = [KStr ''1''], loc = (0, 0), burnt = 5 / 1000\<rparr>),
      (KStr ''1'', \<lparr>weight = 1, neighbors = [KStr ''0''], loc = (1, 1), burnt = 0\<rparr>)]"



text \<open>The driver's weights, with the second vertex at distance one from the root.\<close>

definition graph_skew :: lgraph where
  "graph_skew =
     [(KStr ''0'', \<lparr>weight = 5, neighbors = [KStr ''1''], loc = (0, 0), burnt = 0\<rparr>),
      (KStr ''1'', \<lparr>weight = 1, neighbors = [KStr ''0''], loc = (- 3 / 5, 4 / 5), burnt = 0\<rparr>)]"

text \<open>The expansion point as claim C4 states it, with both perturbed components computed from
  the original components of the net force \<open>F\<close>, for the position of the vertex and the
  four draws.\<close>

definition claimed_expansion_point :: "point \<Rightarrow> point \<Rightarrow> real \<Rightarrow> real \<Rightarrow> real \<Rightarrow> real \<Rightarrow> point" where
  "claimed_expansion_point position F u1 u2 u3 u4 =
     (let Fx' = fst F * (u1 + snd F * u2);
          Fy' = snd F * (u3 + fst F * u4);
          n = norm_np (Fx', Fy')
      in vadd position (r * (Fx' / n), r * (Fy' / n)))"

text \<open>The dict after a call: the dict of the returned value, or the dict at the raise.\<close>

fun final_graph :: "('a \<Rightarrow> lgraph) \<Rightarrow> 'a result \<Rightarrow> lgraph" where
  "final_graph f (Returned x) = f x"
| "final_graph f (Raised e g) = g"

text \<open>The states of a graph whose vertices were all created with activation zero, under the
  methods that change the dict: \<^verbatim>\<open>add_vertex\<close>, \<^verbatim>\<open>set_weight\<close>, \<^verbatim>\<open>set_active_states\<close> and
  \<^verbatim>\<open>make_new_vertex\<close>, whether they return or raise.\<close>

inductive reachable :: "lgraph \<Rightarrow> bool" where
  created: "list_all (\<lambda>(k, v). burnt v = 0) g \<Longrightarrow> reachable g"
| added: "reachable g \<Longrightarrow> reachable (add_vertex g k neigh pos w)"
| weighted: "reachable g \<Longrightarrow> set_weight g k w = Inr g' \<Longrightarrow> reachable g'"
| reinforced: "reachable g \<Longrightarrow> reachable (final_graph id (set_active_states g seed))"
| grown: "reachable g \<Longrightarrow> reachable (final_graph fst (make_new_vertex g draws))"

text \<open>The increment of the activation in \<^verbatim>\<open>set_active_states\<close>.\<close>

definition bump :: "real \<Rightarrow> real" where
  "bump b = (if b < 15 then double_round (b + c005) else b)"

text \<open>Every activation is the result of a number of increments of zero.\<close>

definition burnt_steps :: "lgraph \<Rightarrow> bool" where
  "burnt_steps g = list_all (\<lambda>(k, v). \<exists>n::nat. burnt v = (bump ^^ n) 0) g"

text \<open>A multiple of \<open>1 / 2 ^ 60\<close>, and the activation after \<open>3000\<close> increments of zero, which is
  \<open>15.000000000000945\<close> to seventeen digits.\<close>

definition scaled :: "int \<Rightarrow> real" where
  "scaled X = of_int X / 2 ^ 60"

definition burnt_cap :: real where
  "burnt_cap = 2111062325330053 / 2 ^ 47"

text \<open>The graph of the root alone, with a given activation.\<close>

definition graph_root :: "real \<Rightarrow> lgraph" where
  "graph_root b = [(KStr ''0'', \<lparr>weight = 1, neighbors = [], loc = (0, 0), burnt = b\<rparr>)]"

text \<open>The activation stored for a key.\<close>

definition burnt_of :: "lgraph \<Rightarrow> key \<Rightarrow> real option" where
  "burnt_of g k = map_option burnt (map_of g k)"

text \<open>No activation of the first graph is lost or lowered in the second.\<close>

definition burnt_le :: "lgraph \<Rightarrow> lgraph \<Rightarrow> bool" where
  "burnt_le g g' = (\<forall>k b. burnt_of g k = Some b \<longrightarrow> (\<exists>b'. burnt_of g' k = Some b' \<and> b \<le> b'))"

text \<open>The skew graph after \<^verbatim>\<open>set_active_states("1")\<close>.\<close>

definition graph_skew_reinforced :: lgraph where
  "graph_skew_reinforced =
     [(KStr ''0'', \<lparr>weight = 5, neighbors = [KStr ''1''], loc = (0, 0), burnt = c005\<rparr>),
      (KStr ''1'', \<lparr>weight = 11 / 10, neighbors = [KStr ''0''], loc = (- 3 / 5, 4 / 5), burnt = c005\<rparr>)]"

text \<open>The neighbour list stored for a key.\<close>

definition neighbors_of :: "lgraph \<Rightarrow> key \<Rightarrow> key list option" where
  "neighbors_of g k = map_option neighbors (map_of g k)"

text \<open>The skew graph after the insertion of the vertex \<open>"2"\<close> next to \<open>"1"\<close>, and after the
  reinforcement that ends the growth step.\<close>

definition graph_skew_added :: lgraph where
  "graph_skew_added =
     [(KStr ''0'', \<lparr>weight = 5, neighbors = [KStr ''1''], loc = (0, 0), burnt = 0\<rparr>),
      (KStr ''1'', \<lparr>weight = 1, neighbors = [KStr ''0''], loc = (- (3 / 5), 4 / 5), burnt = 0\<rparr>),
      (KStr ''2'', \<lparr>weight = 1, neighbors = [KStr ''1''], loc = (- (6 / 5), 8 / 5), burnt = 0\<rparr>)]"

definition graph_skew_grown :: lgraph where
  "graph_skew_grown =
     [(KStr ''0'', \<lparr>weight = 5, neighbors = [KStr ''1''], loc = (0, 0), burnt = c005\<rparr>),
      (KStr ''1'', \<lparr>weight = 11 / 10, neighbors = [KStr ''0''], loc = (- (3 / 5), 4 / 5), burnt = c005\<rparr>),
      (KStr ''2'', \<lparr>weight = 975 / 1000, neighbors = [KStr ''1''], loc = (- (6 / 5), 8 / 5), burnt = 0\<rparr>)]"

text \<open>The skew graph after a growth step with one discarded attempt at \<open>"0"\<close> before the
  insertion of \<open>"2"\<close> next to \<open>"1"\<close>.\<close>

definition graph_skew_retried :: lgraph where
  "graph_skew_retried =
     [(KStr ''0'', \<lparr>weight = 5, neighbors = [KStr ''1''], loc = (0, 0), burnt = 2 * c005\<rparr>),
      (KStr ''1'', \<lparr>weight = 1075 / 1000, neighbors = [KStr ''0''], loc = (- (3 / 5), 4 / 5), burnt = c005\<rparr>),
      (KStr ''2'', \<lparr>weight = 950 / 1000, neighbors = [KStr ''1''], loc = (- (6 / 5), 8 / 5), burnt = 0\<rparr>)]"

section \<open>Path enumeration from a missing start vertex\<close>

lemma find_all_paths_same:
  "find_all_paths graph x x path = [path @ [x]]"
  by (simp add: find_all_paths.simps)

lemma find_all_paths_absent:
  assumes "map_of graph x = None" and "x \<noteq> y"
  shows "find_all_paths graph x y path = []"
  using assms by (simp add: find_all_paths.simps)

text \<open>
  Claim C3, as stated: for every start key \<open>x\<close> absent from the graph and every end key
  \<open>y\<close>, \<open>findAllPaths(x, y)\<close> is the empty sequence, also when \<open>x = y\<close>. The code tests
  \<open>start == end\<close> first, so for an absent \<open>x\<close> the call \<open>findAllPaths(x, x)\<close> returns the
  singleton path \<open>[x]\<close>: here on the empty graph.
\<close>

theorem C3_absent_start_counterexample:
  "map_of ([] :: (key \<times> gvertex) list) (KStr ''x'') = None \<and>
   find_all_paths ([] :: (key \<times> gvertex) list) (KStr ''x'') (KStr ''x'') [] \<noteq> []"
  by (simp add: find_all_paths.simps)

text \<open>
  Claim C3, amended: for every start key \<open>x\<close> absent from the graph, \<open>findAllPaths(x, y)\<close>
  is the empty sequence for every end key \<open>y\<close> different from \<open>x\<close>, and the one path \<open>[x]\<close>
  for \<open>y = x\<close>.
\<close>

theorem C3_absent_start:
  assumes "map_of graph x = None"
  shows "find_all_paths graph x y [] = (if x = y then [[x]] else [])"
  using assms by (simp add: find_all_paths.simps)

theorem C3_absent_start_witness:
  "map_of [(KStr ''a'', \<lparr>weight = 1, neighbors = [KStr ''b'']\<rparr>)] (KStr ''b'') = None \<and>
   find_all_paths [(KStr ''a'', \<lparr>weight = 1, neighbors = [KStr ''b'']\<rparr>)] (KStr ''b'') (KStr ''a'') [] = [] \<and>
   find_all_paths [(KStr ''a'', \<lparr>weight = 1, neighbors = [KStr ''b'']\<rparr>)] (KStr ''b'') (KStr ''b'') [] = [[KStr ''b'']]"
  using C3_absent_start [of "[(KStr ''a'', \<lparr>weight = 1, neighbors = [KStr ''b'']\<rparr>)]" "KStr ''b''" "KStr ''a''"]
        C3_absent_start [of "[(KStr ''a'', \<lparr>weight = 1, neighbors = [KStr ''b'']\<rparr>)]" "KStr ''b''" "KStr ''b''"]
  by simp

section \<open>Edge enumeration\<close>

lemma edges_of_vertex_distinct:
  "distinct es \<Longrightarrow> distinct (edges_of_vertex k ns es)"
  by (induction ns arbitrary: es) (auto simp: insert_commute)

lemma edges_loop_distinct:
  "distinct es \<Longrightarrow> distinct (edges_loop g es)"
  by (induction g es rule: edges_loop.induct) (auto simp: edges_of_vertex_distinct)

lemma edges_of_vertex_set:
  "set (edges_of_vertex k ns es) \<subseteq> set es \<union> {{k, n} | n. n \<in> set ns}"
proof (induction ns arbitrary: es)
  case Nil
  then show ?case by simp
next
  case (Cons a ns)
  let ?es = "if {a, k} \<notin> set es then es @ [{k, a}] else es"
  have "set (edges_of_vertex k ns ?es) \<subseteq> set ?es \<union> {{k, n} | n. n \<in> set ns}"
    by (rule Cons.IH)
  moreover have "set ?es \<subseteq> set es \<union> {{k, n} | n. n \<in> set (a # ns)}"
    by auto
  moreover have "{{k, n} | n. n \<in> set ns} \<subseteq> {{k, n} | n. n \<in> set (a # ns)}"
    by auto
  ultimately have "set (edges_of_vertex k ns ?es) \<subseteq> set es \<union> {{k, n} | n. n \<in> set (a # ns)}"
    by blast
  then show ?case by simp
qed

lemma edges_loop_set:
  "set (edges_loop g es) \<subseteq> set es \<union> {{k, n} | k v n. (k, v) \<in> set g \<and> n \<in> set (neighbors v)}"
proof (induction g es rule: edges_loop.induct)
  case (1 es)
  then show ?case by simp
next
  case (2 vertex v rest es)
  have "set (edges_of_vertex vertex (neighbors v) es) \<subseteq> set es \<union> {{vertex, n} | n. n \<in> set (neighbors v)}"
    by (rule edges_of_vertex_set)
  with 2 show ?case by fastforce
qed

text \<open>
  Claim C9, amended: in every graph state \<open>edges()\<close> holds no unordered pair twice, and
  every returned pair holds a key of \<open>vertices()\<close> (the vertex whose neighbour list
  produced it); both endpoints are keys of \<open>vertices()\<close> when every neighbour named in the
  graph is itself a key of the graph.
\<close>

theorem C9_edges:
  "distinct (edges g) \<and>
   (\<forall>e \<in> set (edges g). \<exists>k n. e = {k, n} \<and> k \<in> set (vertices g)) \<and>
   (closed_graph g \<longrightarrow> (\<forall>e \<in> set (edges g). e \<subseteq> set (vertices g)))"
proof -
  have d: "distinct (edges g)"
    by (simp add: edges_def generate_edges_def edges_loop_distinct)
  have s: "set (edges g) \<subseteq> {{k, n} | k v n. (k, v) \<in> set g \<and> n \<in> set (neighbors v)}"
    using edges_loop_set [of g "[]"] by (simp add: edges_def generate_edges_def)
  have a: "\<forall>e \<in> set (edges g). \<exists>k n. e = {k, n} \<and> k \<in> set (vertices g)"
  proof
    fix e assume "e \<in> set (edges g)"
    with s obtain k v n where "e = {k, n}" "(k, v) \<in> set g" by blast
    then show "\<exists>k n. e = {k, n} \<and> k \<in> set (vertices g)"
      by (force simp: vertices_def)
  qed
  have c: "closed_graph g \<longrightarrow> (\<forall>e \<in> set (edges g). e \<subseteq> set (vertices g))"
  proof (intro impI ballI)
    fix e assume cl: "closed_graph g" and "e \<in> set (edges g)"
    with s obtain k v n where e: "e = {k, n}" and kv: "(k, v) \<in> set g" and n: "n \<in> set (neighbors v)" by blast
    from cl kv n have "n \<in> set (vertices g)" by (auto simp: closed_graph_def)
    moreover from kv have "k \<in> set (vertices g)" by (force simp: vertices_def)
    ultimately show "e \<subseteq> set (vertices g)" using e by simp
  qed
  from d a c show ?thesis by blast
qed

lemma edges_graph_abc:
  "edges graph_abc = [{KStr ''a'', KStr ''b''}, {KStr ''a'', KStr ''c''}, {KStr ''b''}]"
  by (simp add: edges_def generate_edges_def graph_abc_def doubleton_eq_iff)

theorem C9_edges_witness:
  "closed_graph graph_abc \<and>
   edges graph_abc = [{KStr ''a'', KStr ''b''}, {KStr ''a'', KStr ''c''}, {KStr ''b''}] \<and>
   distinct (edges graph_abc) \<and>
   list_all (\<lambda>e. e \<subseteq> set (vertices graph_abc)) (edges graph_abc)"
proof -
  have cl: "closed_graph graph_abc"
    by (simp add: closed_graph_def graph_abc_def vertices_def)
  from C9_edges [of graph_abc] cl edges_graph_abc show ?thesis
    by (simp add: list_all_iff)
qed

text \<open>
  Claim C9, as stated, includes the states built by \<open>addVertex\<close> with a neighbour list that
  names a key not in the graph. After \<^verbatim>\<open>add_vertex("a", ["b"])\<close> on the empty graph,
  \<open>edges()\<close> returns the pair of \<open>a\<close> and \<open>b\<close>, and \<open>b\<close> is not in \<open>vertices()\<close>.
\<close>

theorem C9_edges_counterexample:
  "edges (Graph_add_vertex [] (KStr ''a'') (Some [KStr ''b'']) 1) = [{KStr ''a'', KStr ''b''}] \<and>
   vertices (Graph_add_vertex [] (KStr ''a'') (Some [KStr ''b'']) 1) = [KStr ''a''] \<and>
   \<not> {KStr ''a'', KStr ''b''} \<subseteq> set (vertices (Graph_add_vertex [] (KStr ''a'') (Some [KStr ''b'']) 1))"
  by (simp add: Graph_add_vertex_def edges_def generate_edges_def vertices_def)

section \<open>The best path\<close>

















section \<open>Insertion of a vertex\<close>

lemma Graph_add_vertex_present:
  "map_of graph vertex \<noteq> None \<Longrightarrow> Graph_add_vertex graph vertex neigh w = graph"
  by (auto simp: Graph_add_vertex_def)

lemma map_of_map_entry:
  "map_of (AList.map_entry k f al) k' =
     (if k' = k then map_option f (map_of al k) else map_of al k')"
  by (induction al) auto

lemma add_vertex_present:
  assumes "map_of graph vertex = Some v"
  shows "map_of (add_vertex graph vertex neigh pos w) vertex =
           Some (v\<lparr>burnt := 0, loc := (case pos of None \<Rightarrow> (0, 0) | Some p \<Rightarrow> p)\<rparr>)"
  using assms by (simp add: add_vertex_def Let_def map_of_map_entry)

text \<open>
  Claim C1 says that \<open>addVertex\<close> on a key that is already present leaves the stored
  vertex unchanged. \<^verbatim>\<open>Graph.add_vertex\<close> does so (lemma \<open>Graph_add_vertex_present\<close>), but the
  override in \<^verbatim>\<open>LichtenbergGraph\<close> assigns \<^verbatim>\<open>"burnt"\<close> and \<^verbatim>\<open>"loc"\<close> outside the test: on the
  present key \<open>"0"\<close> with activation \<open>0.005\<close> at \<open>(0, 0)\<close>, the call with position \<open>(3, 4)\<close>
  keeps weight and neighbours, resets the activation to \<open>0\<close> and moves the vertex.
\<close>

theorem C1_add_vertex_overwrites:
  "map_of graph_burnt (KStr ''0'') =
     Some \<lparr>weight = 5, neighbors = [KStr ''1''], loc = (0, 0), burnt = 5 / 1000\<rparr> \<and>
   map_of (add_vertex graph_burnt (KStr ''0'') (Some []) (Some (3, 4)) 1) (KStr ''0'') =
     Some \<lparr>weight = 5, neighbors = [KStr ''1''], loc = (3, 4), burnt = 0\<rparr>"
  by (simp add: graph_burnt_def add_vertex_def)

section \<open>The fallback of the roulette wheel\<close>

lemma roulette_nan: "roulette None forces = KInt 0"
  by (induction forces) (auto simp: nan_sub_def nan_le_zero_def)

lemma roulette_exhausted:
  "sum_list (map (\<lambda>(vertex, F). norm_np F) forces) < P \<Longrightarrow>
     roulette (Some P) (map (\<lambda>(vertex, F). (vertex, Some F)) forces) = KInt 0"
proof (induction forces arbitrary: P)
  case Nil
  then show ?case by simp
next
  case (Cons a forces)
  obtain vertex F where a: "a = (vertex, F)" by (cases a)
  have "0 \<le> sum_list (map (\<lambda>(vertex, F). norm_np F) forces)"
    by (rule sum_list_nonneg) (auto simp: norm_np_def)
  with Cons.prems a have "\<not> P - norm_np F \<le> 0" by simp
  moreover from Cons.prems a have "sum_list (map (\<lambda>(vertex, F). norm_np F) forces) < P - norm_np F"
    by simp
  ultimately show ?case using Cons.IH a
    by (simp add: nan_sub_def nan_le_zero_def norm_nan_def)
qed

lemma graph_coincident_eq:
  "graph_coincident =
     [(KStr ''0'', \<lparr>weight = 1, neighbors = [], loc = (0, 0), burnt = 0\<rparr>),
      (KStr ''1'', \<lparr>weight = 1, neighbors = [], loc = (0, 0), burnt = 0\<rparr>)]"
  by (simp add: graph_coincident_def add_vertex_def)

lemma net_forces_graph_coincident:
  "net_forces graph_coincident = Inr [(KStr ''0'', None), (KStr ''1'', None)]"
  by (simp add: graph_coincident_eq net_forces_def net_force_def vertices_def force_def)

text \<open>
  Claim C5 says that the exhausted loop returns the first vertex of the graph, whatever
  its key. The statement after the loop is \<^verbatim>\<open>return 0\<close>. On the graph of the two vertices
  \<open>"0"\<close> and \<open>"1"\<close> added with the default position, both net forces are nan, the remaining
  mass is nan, no comparison \<^verbatim>\<open>P <= 0\<close> holds, and \<^verbatim>\<open>pick_expansion_vertex\<close> returns the integer
  \<open>0\<close>, which is not the first vertex \<open>"0"\<close> and no key of the graph.
\<close>

theorem C5_fallback_literal_zero:
  "vertices graph_coincident = [KStr ''0'', KStr ''1''] \<and>
   net_forces graph_coincident = Inr [(KStr ''0'', None), (KStr ''1'', None)] \<and>
   pick_expansion_vertex graph_coincident [1 / 2] = Inr (KInt 0, []) \<and>
   KInt 0 \<notin> set (vertices graph_coincident)"
  by (simp add: pick_expansion_vertex_def net_forces_graph_coincident
        nan_add_def nan_sub_def nan_le_zero_def norm_nan_def)
     (simp add: graph_coincident_eq vertices_def)

section \<open>Nearest vertex\<close>










section \<open>The expansion point\<close>

lemma net_force_graph_skew:
  "net_force graph_skew (KStr ''0'') = Inr (18 / 5, - 24 / 5)"
  by (simp add: net_force_def vertices_def graph_skew_def force_def vadd_def power2_eq_square)

text \<open>
  Claim C4, amended: for a vertex \<open>v\<close> with net force \<open>(Fx, Fy)\<close> and four draws \<open>u1\<close>, \<open>u2\<close>,
  \<open>u3\<close>, \<open>u4\<close> consumed in that order, \<open>pickExpansionPoint(v)\<close> returns the position of \<open>v\<close>
  plus \<open>r\<close> times the normalised vector \<open>(Fx', Fy')\<close>, where \<open>Fx' = Fx * (u1 + Fy * u2)\<close> is
  computed from the original components and \<open>Fy' = Fy * (u3 + Fx' * u4)\<close> from the
  original \<open>Fy\<close> and the already perturbed \<open>Fx'\<close>; the perturbed vector is not zero.
\<close>

theorem C4_expansion_point:
  assumes "net_force graph vertex = Inr (Fx, Fy)"
    and "map_of graph vertex = Some v"
    and "norm_np (Fx * (u1 + Fy * u2), Fy * (u3 + Fx * (u1 + Fy * u2) * u4)) \<noteq> 0"
  shows "pick_expansion_point graph vertex (u1 # u2 # u3 # u4 # draws) =
           Inr (vadd (loc v)
                  (Fx * (u1 + Fy * u2) *
                     (r / norm_np (Fx * (u1 + Fy * u2), Fy * (u3 + Fx * (u1 + Fy * u2) * u4))),
                   Fy * (u3 + Fx * (u1 + Fy * u2) * u4) *
                     (r / norm_np (Fx * (u1 + Fy * u2), Fy * (u3 + Fx * (u1 + Fy * u2) * u4)))),
                draws)"
  using assms by (simp add: pick_expansion_point_def Let_def)

lemma expansion_point_graph_skew:
  "pick_expansion_point graph_skew (KStr ''0'') [0, 25 / 144, 0, 5 / 18] = Inr ((- 3 / 5, 4 / 5), [])"
proof -
  have n: "norm_np (- 3, 4) = 5"
    using real_sqrt_abs [of 5] by (simp add: norm_np_def)
  have m: "map_of graph_skew (KStr ''0'') =
    Some \<lparr>weight = 5, neighbors = [KStr ''1''], loc = (0, 0), burnt = 0\<rparr>"
    by (simp add: graph_skew_def)
  show ?thesis
    by (simp add: pick_expansion_point_def net_force_graph_skew Let_def m n vadd_def r_def)
qed

text \<open>
  Claim C4, as stated, computes the second component from the original \<open>Fx\<close>. On the skew
  graph the net force on the root is \<open>(18/5, -24/5)\<close>; with the draws \<open>0\<close>, \<open>25/144\<close>, \<open>0\<close>,
  \<open>5/18\<close> the code returns the point \<open>(-3/5, 4/5)\<close>, while the point of the claim has a
  negative second coordinate.
\<close>

theorem C4_expansion_point_counterexample:
  "net_force graph_skew (KStr ''0'') = Inr (18 / 5, - 24 / 5) \<and>
   pick_expansion_point graph_skew (KStr ''0'') [0, 25 / 144, 0, 5 / 18] = Inr ((- 3 / 5, 4 / 5), []) \<and>
   snd (claimed_expansion_point (0, 0) (18 / 5, - 24 / 5) 0 (25 / 144) 0 (5 / 18)) < 0 \<and>
   pick_expansion_point graph_skew (KStr ''0'') [0, 25 / 144, 0, 5 / 18] \<noteq>
     Inr (claimed_expansion_point (0, 0) (18 / 5, - 24 / 5) 0 (25 / 144) 0 (5 / 18), [])"
proof -
  have "0 < norm_np (- 3, - (24 / 5))"
    unfolding norm_np_def by (rule real_sqrt_gt_zero) (simp add: power2_eq_square)
  then have "- (24 / 5) / norm_np (- 3, - (24 / 5)) < 0"
    by (simp add: divide_neg_pos)
  then have "snd (claimed_expansion_point (0, 0) (18 / 5, - 24 / 5) 0 (25 / 144) 0 (5 / 18)) < 0"
    by (simp add: claimed_expansion_point_def Let_def vadd_def r_def)
  then have neg: "snd (claimed_expansion_point (0, 0) (18 / 5, - 24 / 5) 0 (25 / 144) 0 (5 / 18)) < 0" .
  have "pick_expansion_point graph_skew (KStr ''0'') [0, 25 / 144, 0, 5 / 18] \<noteq>
     Inr (claimed_expansion_point (0, 0) (18 / 5, - 24 / 5) 0 (25 / 144) 0 (5 / 18), [])"
  proof
    assume "pick_expansion_point graph_skew (KStr ''0'') [0, 25 / 144, 0, 5 / 18] =
     Inr (claimed_expansion_point (0, 0) (18 / 5, - 24 / 5) 0 (25 / 144) 0 (5 / 18), [])"
    with expansion_point_graph_skew
    have "claimed_expansion_point (0, 0) (18 / 5, - 24 / 5) 0 (25 / 144) 0 (5 / 18) = (- 3 / 5, 4 / 5)"
      by simp
    with neg show False by simp
  qed
  with net_force_graph_skew expansion_point_graph_skew neg show ?thesis by blast
qed

theorem C4_expansion_point_witness:
  "net_force graph_skew (KStr ''0'') = Inr (18 / 5, - 24 / 5) \<and>
   norm_np (18 / 5 * (0 + - 24 / 5 * (25 / 144)),
            - 24 / 5 * (0 + 18 / 5 * (0 + - 24 / 5 * (25 / 144)) * (5 / 18))) = 5 \<and>
   pick_expansion_point graph_skew (KStr ''0'') [0, 25 / 144, 0, 5 / 18] =
     Inr ((- 3 / 5, 4 / 5), [])"
proof -
  have n: "norm_np (18 / 5 * (0 + - 24 / 5 * (25 / 144)),
            - 24 / 5 * (0 + 18 / 5 * (0 + - 24 / 5 * (25 / 144)) * (5 / 18))) = 5"
    using real_sqrt_abs [of 5] by (simp add: norm_np_def)
  then have nz: "norm_np (18 / 5 * (0 + - 24 / 5 * (25 / 144)),
            - 24 / 5 * (0 + 18 / 5 * (0 + - 24 / 5 * (25 / 144)) * (5 / 18))) \<noteq> 0" by simp
  have m: "map_of graph_skew (KStr ''0'') =
    Some \<lparr>weight = 5, neighbors = [KStr ''1''], loc = (0, 0), burnt = 0\<rparr>"
    by (simp add: graph_skew_def)
  have "pick_expansion_point graph_skew (KStr ''0'') [0, 25 / 144, 0, 5 / 18] =
     Inr ((- 3 / 5, 4 / 5), [])"
    using C4_expansion_point [OF net_force_graph_skew m nz, of "[]"] n
    by (simp add: vadd_def r_def)
  with net_force_graph_skew n show ?thesis by blast
qed

section \<open>Activation\<close>

subsection \<open>The rounded addition\<close>

text \<open>Rounding to a multiple of \<open>2 ^ k\<close> returns the multiple within half a unit, and the even
  one of the two at exactly half a unit.\<close>

lemma floor_log2_eq:
  assumes "2 powr (real_of_int e) \<le> y" and "y < 2 powr (real_of_int (e + 1))"
  shows "\<lfloor>log 2 y\<rfloor> = e"
proof -
  have pos: "0 < y" using assms(1) by (smt (verit) powr_gt_zero)
  have "real_of_int e \<le> log 2 y"
    using assms(1) pos by (simp add: le_log_iff)
  moreover have "log 2 y < real_of_int (e + 1)"
    using assms(2) pos by (simp add: log_less_iff)
  ultimately show ?thesis by linarith
qed

lemma round_to_nearest:
  assumes "\<bar>y - of_int m * 2 powr (real_of_int k)\<bar> < 2 powr (real_of_int k) / 2"
  shows "round_to k y = of_int m * 2 powr (real_of_int k)"
proof -
  let ?u = "2 powr (real_of_int k)"
  have u: "0 < ?u" by simp
  let ?t = "y / ?u"
  have "\<bar>?t - of_int m\<bar> = \<bar>y - of_int m * ?u\<bar> / ?u"
    using u by (simp add: field_simps abs_divide)
  also have "\<dots> < (?u / 2) / ?u" using assms u by (simp add: divide_strict_right_mono)
  also have "\<dots> = 1 / 2" using u by simp
  finally have d: "\<bar>?t - of_int m\<bar> < 1 / 2" .
  show ?thesis
  proof (cases "of_int m \<le> ?t")
    case True
    with d have "\<lfloor>?t\<rfloor> = m" by linarith
    moreover with d True have "?t - of_int m < 1 / 2" by linarith
    ultimately show ?thesis by (simp add: round_to_def Let_def)
  next
    case False
    with d have f: "\<lfloor>?t\<rfloor> = m - 1" by linarith
    from d False have "\<not> (?t - of_int (m - 1) < 1 / 2)" "?t - of_int (m - 1) \<noteq> 1 / 2"
      by auto
    with f show ?thesis by (simp add: round_to_def Let_def)
  qed
qed

lemma round_to_tie_even:
  assumes "y = (of_int m + 1 / 2) * 2 powr (real_of_int k)" and "even m"
  shows "round_to k y = of_int m * 2 powr (real_of_int k)"
proof -
  have "y / 2 powr (real_of_int k) = of_int m + 1 / 2" using assms(1) by simp
  moreover have "\<lfloor>of_int m + (1 / 2 :: real)\<rfloor> = m" by linarith
  ultimately show ?thesis using assms(2) by (simp add: round_to_def Let_def)
qed

lemma round_to_error:
  "\<bar>round_to k y - y\<bar> \<le> 2 powr (real_of_int k) / 2"
proof -
  let ?u = "2 powr (real_of_int k)"
  have u: "0 < ?u" by simp
  let ?t = "y / ?u"
  let ?q = "\<lfloor>?t\<rfloor>"
  have fl: "of_int ?q \<le> ?t" "?t < of_int ?q + 1" by linarith+
  have key: "\<bar>a * ?u - y\<bar> = \<bar>a - ?t\<bar> * ?u" for a
  proof -
    have "a * ?u - y = (a - ?t) * ?u" using u by (simp add: field_simps)
    then have "\<bar>a * ?u - y\<bar> = \<bar>(a - ?t) * ?u\<bar>" by (rule arg_cong)
    also have "\<dots> = \<bar>a - ?t\<bar> * \<bar>?u\<bar>" by (rule abs_mult)
    finally show ?thesis using u by simp
  qed
  have bound: "\<bar>a * ?u - y\<bar> \<le> ?u / 2" if "\<bar>a - ?t\<bar> \<le> 1 / 2" for a
  proof -
    from that u have "\<bar>a - ?t\<bar> * ?u \<le> (1 / 2) * ?u" by (simp only: mult_le_cancel_right_pos)
    with key [of a] show ?thesis by simp
  qed
  show ?thesis
  proof (cases "?t - of_int ?q < 1 / 2 \<or> (?t - of_int ?q = 1 / 2 \<and> even ?q)")
    case True
    then have r: "round_to k y = of_int ?q * ?u" by (simp add: round_to_def Let_def)
    from True fl have "\<bar>of_int ?q - ?t\<bar> \<le> 1 / 2" by linarith
    from bound [OF this] r show ?thesis by simp
  next
    case False
    then have r: "round_to k y = of_int (?q + 1) * ?u" by (simp add: round_to_def Let_def)
    from False fl have "\<bar>of_int (?q + 1) - ?t\<bar> \<le> 1 / 2" by (auto; linarith)
    from bound [OF this] r show ?thesis by simp
  qed
qed


lemma two_powr_shift:
  "2 powr (real_of_int (int j - 60)) = 2 ^ j / 2 ^ 60"
proof -
  have "2 powr (real_of_int (int j - 60)) = 2 powr (real j - 60)" by simp
  also have "\<dots> = 2 powr (real j) / 2 powr 60" by (rule powr_diff)
  also have "\<dots> = 2 ^ j / 2 ^ 60" by (simp add: powr_realpow)
  finally show ?thesis .
qed

lemma double_round_error:
  assumes "0 < y" and "y < 16"
  shows "\<bar>double_round y - y\<bar> \<le> 1 / 2 ^ 50"
proof -
  let ?k = "max (\<lfloor>log 2 \<bar>y\<bar>\<rfloor> - 52) (- 1074)"
  have "log 2 y < log 2 16" using assms by simp
  also have "log 2 16 = 4"
  proof -
    have "(16 :: real) = 2 powr 4" by simp
    then show ?thesis by (simp only: log_powr_cancel)
  qed
  finally have "\<lfloor>log 2 y\<rfloor> \<le> 3" by linarith
  with assms have k: "?k \<le> - 49" by simp
  have "\<bar>round_to ?k y - y\<bar> \<le> 2 powr (real_of_int ?k) / 2" by (rule round_to_error)
  also have "\<dots> \<le> 2 powr (real_of_int (- 49)) / 2"
  proof -
    from k have "real_of_int ?k \<le> real_of_int (- 49)" by (simp only: of_int_le_iff)
    then have "2 powr (real_of_int ?k) \<le> 2 powr (real_of_int (- 49))"
      by (intro powr_mono) simp_all
    then show ?thesis by (rule divide_right_mono) simp
  qed
  also have "\<dots> = 1 / 2 ^ 50"
    by (simp add: powr_minus inverse_eq_divide)
  finally show ?thesis using assms by (simp add: double_round_def)
qed

lemma c005_bounds: "1 / 2 ^ 50 \<le> c005" "c005 < 1" "0 < c005"
  by (simp_all add: c005_def)

lemma bump_ge:
  assumes "0 \<le> b"
  shows "b \<le> bump b"
proof (cases "b < 15")
  case True
  from assms True c005_bounds have "0 < b + c005" "b + c005 < 16" by simp_all
  from double_round_error [OF this] have "b + c005 - 1 / 2 ^ 50 \<le> double_round (b + c005)"
    by linarith
  with c005_bounds(1) True show ?thesis by (simp add: bump_def)
next
  case False
  then show ?thesis by (simp add: bump_def)
qed

lemma bump_fixed: "15 \<le> b \<Longrightarrow> bump b = b"
  by (simp add: bump_def)

lemma binade_scaled:
  fixes N :: int
  assumes "2 ^ (52 + j) \<le> N" and "N < 2 ^ (53 + j)"
  shows "max (\<lfloor>log 2 \<bar>of_int N / 2 ^ 60\<bar>\<rfloor> - 52) (- 1074) = int j - 60"
proof -
  let ?y = "real_of_int N / 2 ^ 60"
  have Npos: "0 < N" using assms(1) by (smt (verit) zero_less_power)
  then have ypos: "0 < ?y" by simp
  have lo: "2 powr (real_of_int (int j - 8)) \<le> ?y"
  proof -
    have "2 powr (real_of_int (int j - 8)) = 2 powr (real (52 + j) - 60)" by simp
    also have "\<dots> = 2 powr (real (52 + j)) / 2 powr 60" by (rule powr_diff)
    also have "\<dots> = 2 ^ (52 + j) / 2 ^ 60" by (simp only: powr_realpow zero_less_numeral) simp
    also have "\<dots> \<le> ?y"
    proof -
      from assms(1) have "real_of_int (2 ^ (52 + j)) \<le> real_of_int N" by (simp only: of_int_le_iff)
      then show ?thesis by (simp add: divide_right_mono)
    qed
    finally show ?thesis .
  qed
  have hi: "?y < 2 powr (real_of_int (int j - 8 + 1))"
  proof -
    have "?y < 2 ^ (53 + j) / 2 ^ 60"
    proof -
      from assms(2) have "real_of_int N < real_of_int (2 ^ (53 + j))" by (simp only: of_int_less_iff)
      then show ?thesis by (simp add: divide_strict_right_mono)
    qed
    also have "\<dots> = 2 powr (real (53 + j)) / 2 powr 60" by (simp only: powr_realpow zero_less_numeral) simp
    also have "\<dots> = 2 powr (real (53 + j) - 60)" by (rule powr_diff [symmetric])
    also have "\<dots> = 2 powr (real_of_int (int j - 8 + 1))" by simp
    finally show ?thesis .
  qed
  from floor_log2_eq [OF lo hi] ypos have "\<lfloor>log 2 \<bar>?y\<bar>\<rfloor> = int j - 8" by simp
  then show ?thesis by simp
qed

lemma bump_scaled:
  fixes X Z m :: int
  assumes "X < 15 * 2 ^ 60"
    and "2 ^ (52 + j) \<le> X + 5764607523034235"
    and "X + 5764607523034235 < 2 ^ (53 + j)"
    and "Z = m * 2 ^ j"
    and "2 * \<bar>X + 5764607523034235 - Z\<bar> < 2 ^ j"
  shows "bump (of_int X / 2 ^ 60) = of_int Z / 2 ^ 60"
proof -
  let ?N = "X + 5764607523034235"
  let ?y = "real_of_int ?N / 2 ^ 60"
  have sum: "real_of_int X / 2 ^ 60 + c005 = ?y" by (simp add: c005_def add_divide_distrib)
  have lt: "real_of_int X / 2 ^ 60 < 15"
  proof -
    from assms(1) have "real_of_int X < real_of_int (15 * 2 ^ 60)" by (simp only: of_int_less_iff)
    then show ?thesis by simp
  qed
  have Npos: "0 < ?N" using assms(2) by (smt (verit) zero_less_power)
  then have ynz: "?y \<noteq> 0" by simp
  have k: "max (\<lfloor>log 2 \<bar>?y\<bar>\<rfloor> - 52) (- 1074) = int j - 60"
    by (rule binade_scaled [OF assms(2,3)])
  have u: "2 powr (real_of_int (int j - 60)) = 2 ^ j / 2 ^ 60" by (rule two_powr_shift)
  have z: "real_of_int m * (2 ^ j / 2 ^ 60) = real_of_int Z / 2 ^ 60"
    using assms(4) by simp
  have "\<bar>?y - real_of_int Z / 2 ^ 60\<bar> = real_of_int \<bar>?N - Z\<bar> / 2 ^ 60"
    by (simp add: diff_divide_distrib [symmetric] abs_divide del: of_int_add of_int_diff)
  also have "\<dots> < (2 ^ j / 2) / 2 ^ 60"
  proof -
    from assms(5) have "real_of_int (2 * \<bar>?N - Z\<bar>) < real_of_int (2 ^ j)" by (simp only: of_int_less_iff)
    then have "real_of_int \<bar>?N - Z\<bar> < 2 ^ j / 2" by simp
    then show ?thesis by (simp only: divide_strict_right_mono zero_less_power zero_less_numeral)
  qed
  finally have near: "\<bar>?y - real_of_int m * 2 powr (real_of_int (int j - 60))\<bar>
      < 2 powr (real_of_int (int j - 60)) / 2"
    by (simp only: u z) simp
  from round_to_nearest [OF near] have "round_to (int j - 60) ?y = real_of_int Z / 2 ^ 60"
    by (simp only: u z)
  with k ynz have "double_round ?y = real_of_int Z / 2 ^ 60"
    by (simp only: double_round_def if_False)
  with lt sum show ?thesis by (simp only: bump_def if_True)
qed

lemma bump_scaled_tie:
  fixes X Z m :: int
  assumes "X < 15 * 2 ^ 60"
    and "2 ^ (52 + Suc j) \<le> X + 5764607523034235"
    and "X + 5764607523034235 < 2 ^ (53 + Suc j)"
    and "Z = m * 2 ^ Suc j"
    and "X + 5764607523034235 = Z + 2 ^ j"
    and "even m"
  shows "bump (of_int X / 2 ^ 60) = of_int Z / 2 ^ 60"
proof -
  let ?N = "X + 5764607523034235"
  let ?y = "real_of_int ?N / 2 ^ 60"
  have sum: "real_of_int X / 2 ^ 60 + c005 = ?y" by (simp add: c005_def add_divide_distrib)
  have lt: "real_of_int X / 2 ^ 60 < 15"
  proof -
    from assms(1) have "real_of_int X < real_of_int (15 * 2 ^ 60)" by (simp only: of_int_less_iff)
    then show ?thesis by simp
  qed
  have Npos: "0 < ?N" using assms(2) by (smt (verit) zero_less_power)
  then have ynz: "?y \<noteq> 0" by simp
  have k: "max (\<lfloor>log 2 \<bar>?y\<bar>\<rfloor> - 52) (- 1074) = int (Suc j) - 60"
    by (rule binade_scaled [OF assms(2,3)])
  have u: "2 powr (real_of_int (int (Suc j) - 60)) = 2 ^ Suc j / 2 ^ 60" by (rule two_powr_shift)
  have "real_of_int ?N = real_of_int (m * 2 ^ Suc j + 2 ^ j)" using assms(4,5) by simp
  then have "?y = (real_of_int m + 1 / 2) * (2 ^ Suc j / 2 ^ 60)"
    by (simp add: field_simps)
  then have tie: "?y = (real_of_int m + 1 / 2) * 2 powr (real_of_int (int (Suc j) - 60))"
    by (simp only: u)
  have z: "real_of_int m * (2 ^ Suc j / 2 ^ 60) = real_of_int Z / 2 ^ 60"
    using assms(4) by simp
  from round_to_tie_even [OF tie assms(6)] have "round_to (int (Suc j) - 60) ?y = real_of_int Z / 2 ^ 60"
    by (simp only: u z)
  with k ynz have "double_round ?y = real_of_int Z / 2 ^ 60"
    by (simp only: double_round_def if_False)
  with lt sum show ?thesis by (simp only: bump_def if_True)
qed

lemma bump_phase:
  fixes X0 d md mx :: int
  assumes "X0 = mx * 2 ^ j" and "d = md * 2 ^ j" and "0 \<le> d"
    and "2 * \<bar>5764607523034235 - d\<bar> < 2 ^ j"
    and "2 ^ (52 + j) \<le> X0 + 5764607523034235"
    and "X0 + int N * d + 5764607523034235 < 2 ^ (53 + j) + d"
    and "X0 + int N * d < 15 * 2 ^ 60 + d"
    and "n \<le> N"
  shows "(bump ^^ n) (of_int X0 / 2 ^ 60) = of_int (X0 + int n * d) / 2 ^ 60"
  using assms(8)
proof (induction n)
  case 0
  then show ?case by simp
next
  case (Suc n)
  then have n: "n < N" and ih: "(bump ^^ n) (of_int X0 / 2 ^ 60) = of_int (X0 + int n * d) / 2 ^ 60"
    by simp_all
  let ?X = "X0 + int n * d"
  from n have "int n + 1 \<le> int N" by simp
  then have "(int n + 1) * d \<le> int N * d" using assms(3) by (rule mult_right_mono)
  then have le: "int n * d + d \<le> int N * d" by (simp add: algebra_simps)
  have nd: "0 \<le> int n * d" using assms(3) by simp
  have a1: "?X < 15 * 2 ^ 60" using le assms(7) by linarith
  have a2: "2 ^ (52 + j) \<le> ?X + 5764607523034235" using nd assms(5) by linarith
  have a3: "?X + 5764607523034235 < 2 ^ (53 + j)" using le assms(6) by linarith
  have a4: "X0 + int (Suc n) * d = (mx + int (Suc n) * md) * 2 ^ j"
    using assms(1,2) by (simp add: algebra_simps)
  have a5: "2 * \<bar>?X + 5764607523034235 - (X0 + int (Suc n) * d)\<bar> < 2 ^ j"
  proof -
    have "?X + 5764607523034235 - (X0 + int (Suc n) * d) = 5764607523034235 - d"
      by (simp add: algebra_simps)
    then show ?thesis using assms(4) by (simp only:)
  qed
  have "(bump ^^ Suc n) (of_int X0 / 2 ^ 60) = bump ((bump ^^ n) (of_int X0 / 2 ^ 60))"
    by simp
  also have "\<dots> = bump (of_int ?X / 2 ^ 60)" by (simp only: ih)
  also have "\<dots> = of_int (X0 + int (Suc n) * d) / 2 ^ 60"
    by (rule bump_scaled [OF a1 a2 a3 a4 a5])
  finally show ?case .
qed

text \<open>The increments of zero, in units of \<open>1 / 2 ^ 60\<close>: the spacing of the binary64 numbers
  doubles at every power of two, so that the rounded increment changes from phase to phase;
  within a phase every sum is rounded by the same amount.\<close>

lemma funpow_chain:
  "(f ^^ a) x = y \<Longrightarrow> (f ^^ n) y = z \<Longrightarrow> a + n = b \<Longrightarrow> (f ^^ b) x = z"
  by (auto simp add: funpow_add add.commute [of a n])

lemma funpow_step:
  "(f ^^ a) x = y \<Longrightarrow> f y = z \<Longrightarrow> Suc a = b \<Longrightarrow> (f ^^ b) x = z"
  by auto

lemma bump_scaled_step:
  fixes X Z m :: int
  assumes "X < 15 * 2 ^ 60" "2 ^ (52 + j) \<le> X + 5764607523034235"
    "X + 5764607523034235 < 2 ^ (53 + j)" "Z = m * 2 ^ j"
    "2 * \<bar>X + 5764607523034235 - Z\<bar> < 2 ^ j"
  shows "bump (scaled X) = scaled Z"
  unfolding scaled_def using assms by (rule bump_scaled)

lemma bump_scaled_tie_step:
  fixes X Z m :: int
  assumes "X < 15 * 2 ^ 60" "2 ^ (52 + Suc j) \<le> X + 5764607523034235"
    "X + 5764607523034235 < 2 ^ (53 + Suc j)" "Z = m * 2 ^ Suc j"
    "X + 5764607523034235 = Z + 2 ^ j" "even m"
  shows "bump (scaled X) = scaled Z"
  unfolding scaled_def using assms by (rule bump_scaled_tie)

lemma bump_scaled_phase:
  fixes X0 d md mx Xn :: int
  assumes "X0 = mx * 2 ^ j" "d = md * 2 ^ j" "0 \<le> d" "2 * \<bar>5764607523034235 - d\<bar> < 2 ^ j"
    "2 ^ (52 + j) \<le> X0 + 5764607523034235"
    "X0 + int N * d + 5764607523034235 < 2 ^ (53 + j) + d"
    "X0 + int N * d < 15 * 2 ^ 60 + d" "Xn = X0 + int N * d"
  shows "(bump ^^ N) (scaled X0) = scaled Xn"
  unfolding scaled_def using assms bump_phase [of X0 mx j d md N N] by simp

lemma burnt_after_0: "(bump ^^ 0) 0 = scaled 0"
  by (simp add: scaled_def)

lemma burnt_after_1: "(bump ^^ 1) 0 = scaled 5764607523034235"
proof -
  have s: "bump (scaled 0) = scaled 5764607523034235"
    by (rule bump_scaled_step [where m = 5764607523034235 and j = 0]) simp_all
  show ?thesis by (rule funpow_step [OF burnt_after_0 s]) simp
qed

lemma burnt_after_2: "(bump ^^ 2) 0 = scaled 11529215046068470"
proof -
  have s: "bump (scaled 5764607523034235) = scaled 11529215046068470"
    by (rule bump_scaled_step [where m = 5764607523034235 and j = 1]) simp_all
  show ?thesis by (rule funpow_step [OF burnt_after_1 s]) simp
qed

lemma burnt_after_3: "(bump ^^ 3) 0 = scaled 17293822569102704"
proof -
  have s: "bump (scaled 11529215046068470) = scaled 17293822569102704"
    by (rule bump_scaled_tie_step [where m = 8646911284551352 and j = 0]) simp_all
  show ?thesis by (rule funpow_step [OF burnt_after_2 s]) simp
qed

lemma burnt_after_6: "(bump ^^ 6) 0 = scaled 34587645138205412"
proof -
  have p: "(bump ^^ 3) (scaled 17293822569102704) = scaled 34587645138205412"
    by (rule bump_scaled_phase [where mx = 4323455642275676 and md = 1441151880758559 and d = 5764607523034236 and j = 2 and N = 3]) simp_all
  show ?thesis by (rule funpow_chain [OF burnt_after_3 p]) simp
qed

lemma burnt_after_7: "(bump ^^ 7) 0 = scaled 40352252661239648"
proof -
  have s: "bump (scaled 34587645138205412) = scaled 40352252661239648"
    by (rule bump_scaled_step [where m = 5044031582654956 and j = 3]) simp_all
  show ?thesis by (rule funpow_step [OF burnt_after_6 s]) simp
qed

lemma burnt_after_12: "(bump ^^ 12) 0 = scaled 69175290276410808"
proof -
  have p: "(bump ^^ 5) (scaled 40352252661239648) = scaled 69175290276410808"
    by (rule bump_scaled_phase [where mx = 5044031582654956 and md = 720575940379279 and d = 5764607523034232 and j = 3 and N = 5]) simp_all
  show ?thesis by (rule funpow_chain [OF burnt_after_7 p]) simp
qed

lemma burnt_after_13: "(bump ^^ 13) 0 = scaled 74939897799445040"
proof -
  have s: "bump (scaled 69175290276410808) = scaled 74939897799445040"
    by (rule bump_scaled_step [where m = 4683743612465315 and j = 4]) simp_all
  show ?thesis by (rule funpow_step [OF burnt_after_12 s]) simp
qed

lemma burnt_after_24: "(bump ^^ 24) 0 = scaled 138350580552821680"
proof -
  have p: "(bump ^^ 11) (scaled 74939897799445040) = scaled 138350580552821680"
    by (rule bump_scaled_phase [where mx = 4683743612465315 and md = 360287970189640 and d = 5764607523034240 and j = 4 and N = 11]) simp_all
  show ?thesis by (rule funpow_chain [OF burnt_after_13 p]) simp
qed

lemma burnt_after_25: "(bump ^^ 25) 0 = scaled 144115188075855904"
proof -
  have s: "bump (scaled 138350580552821680) = scaled 144115188075855904"
    by (rule bump_scaled_step [where m = 4503599627370497 and j = 5]) simp_all
  show ?thesis by (rule funpow_step [OF burnt_after_24 s]) simp
qed

lemma burnt_after_49: "(bump ^^ 49) 0 = scaled 282465768628677664"
proof -
  have p: "(bump ^^ 24) (scaled 144115188075855904) = scaled 282465768628677664"
    by (rule bump_scaled_phase [where mx = 4503599627370497 and md = 180143985094820 and d = 5764607523034240 and j = 5 and N = 24]) simp_all
  show ?thesis by (rule funpow_chain [OF burnt_after_25 p]) simp
qed

lemma burnt_after_50: "(bump ^^ 50) 0 = scaled 288230376151711872"
proof -
  have s: "bump (scaled 282465768628677664) = scaled 288230376151711872"
    by (rule bump_scaled_step [where m = 4503599627370498 and j = 6]) simp_all
  show ?thesis by (rule funpow_step [OF burnt_after_49 s]) simp
qed

lemma burnt_after_99: "(bump ^^ 99) 0 = scaled 570696144780389632"
proof -
  have p: "(bump ^^ 49) (scaled 288230376151711872) = scaled 570696144780389632"
    by (rule bump_scaled_phase [where mx = 4503599627370498 and md = 90071992547410 and d = 5764607523034240 and j = 6 and N = 49]) simp_all
  show ?thesis by (rule funpow_chain [OF burnt_after_50 p]) simp
qed

lemma burnt_after_199: "(bump ^^ 199) 0 = scaled 1147156897083813632"
proof -
  have p: "(bump ^^ 100) (scaled 570696144780389632) = scaled 1147156897083813632"
    by (rule bump_scaled_phase [where mx = 4458563631096794 and md = 45035996273705 and d = 5764607523034240 and j = 7 and N = 100]) simp_all
  show ?thesis by (rule funpow_chain [OF burnt_after_99 p]) simp
qed

lemma burnt_after_400: "(bump ^^ 400) 0 = scaled 2305843009213670144"
proof -
  have p: "(bump ^^ 201) (scaled 1147156897083813632) = scaled 2305843009213670144"
    by (rule bump_scaled_phase [where mx = 4481081629233647 and md = 22517998136852 and d = 5764607523034112 and j = 8 and N = 201]) simp_all
  show ?thesis by (rule funpow_chain [OF burnt_after_199 p]) simp
qed

lemma burnt_after_401: "(bump ^^ 401) 0 = scaled 2311607616736704512"
proof -
  have s: "bump (scaled 2305843009213670144) = scaled 2311607616736704512"
    by (rule bump_scaled_step [where m = 4514858626438876 and j = 9]) simp_all
  show ?thesis by (rule funpow_step [OF burnt_after_400 s]) simp
qed

lemma burnt_after_800: "(bump ^^ 800) 0 = scaled 4611686018427315200"
proof -
  have p: "(bump ^^ 399) (scaled 2311607616736704512) = scaled 4611686018427315200"
    by (rule bump_scaled_phase [where mx = 4514858626438876 and md = 11258999068426 and d = 5764607523034112 and j = 9 and N = 399]) simp_all
  show ?thesis by (rule funpow_chain [OF burnt_after_401 p]) simp
qed

lemma burnt_after_1600: "(bump ^^ 1600) 0 = scaled 9223372036854604800"
proof -
  have p: "(bump ^^ 800) (scaled 4611686018427315200) = scaled 9223372036854604800"
    by (rule bump_scaled_phase [where mx = 4503599627370425 and md = 5629499534213 and d = 5764607523034112 and j = 10 and N = 800]) simp_all
  show ?thesis by (rule funpow_chain [OF burnt_after_800 p]) simp
qed

lemma burnt_after_1601: "(bump ^^ 1601) 0 = scaled 9229136644377638912"
proof -
  have s: "bump (scaled 9223372036854604800) = scaled 9229136644377638912"
    by (rule bump_scaled_step [where m = 4506414377137519 and j = 11]) simp_all
  show ?thesis by (rule funpow_step [OF burnt_after_1600 s]) simp
qed

lemma burnt_after_3000: "(bump ^^ 3000) 0 = scaled 17293822569103794176"
proof -
  have p: "(bump ^^ 1399) (scaled 9229136644377638912) = scaled 17293822569103794176"
    by (rule bump_scaled_phase [where mx = 4506414377137519 and md = 2814749767107 and d = 5764607523035136 and j = 11 and N = 1399]) simp_all
  show ?thesis by (rule funpow_chain [OF burnt_after_1601 p]) simp
qed

lemma burnt_after_3000_cap: "(bump ^^ 3000) 0 = 2111062325330053 / 2 ^ 47"
  by (simp add: burnt_after_3000 scaled_def)

lemma burnt_cap_gt: "15 < burnt_cap" "burnt_cap < 15 + 1 / 10 ^ 12"
  by (simp_all add: burnt_cap_def)

lemma bump_iter_nonneg: "0 \<le> (bump ^^ n) 0"
proof (induction n)
  case 0
  show ?case by simp
next
  case (Suc n)
  from bump_ge [OF Suc] Suc show ?case by simp
qed

lemma bump_iter_mono:
  assumes "m \<le> n"
  shows "(bump ^^ m) 0 \<le> (bump ^^ n) 0"
proof (rule lift_Suc_mono_le [OF _ assms])
  fix k
  from bump_ge [OF bump_iter_nonneg [of k]] show "(bump ^^ k) 0 \<le> (bump ^^ Suc k) 0" by simp
qed

lemma bump_iter_cap: "(bump ^^ (3000 + m)) 0 = burnt_cap"
proof (induction m)
  case 0
  show ?case using burnt_after_3000_cap by (simp add: burnt_cap_def)
next
  case (Suc m)
  have "(bump ^^ (3000 + Suc m)) 0 = bump ((bump ^^ (3000 + m)) 0)"
    by (simp only: add_Suc_right funpow.simps o_apply)
  also have "\<dots> = bump burnt_cap" by (simp only: Suc)
  also have "\<dots> = burnt_cap" using burnt_cap_gt(1) by (simp add: bump_fixed)
  finally show ?case .
qed

lemma bump_iter_le_cap: "(bump ^^ n) 0 \<le> burnt_cap"
proof (cases "n \<le> 3000")
  case True
  from bump_iter_mono [OF True] bump_iter_cap [of 0] show ?thesis by simp
next
  case False
  then have "n = 3000 + (n - 3000)" by simp
  with bump_iter_cap [of "n - 3000"] show ?thesis by simp
qed

lemma bump_accuracy:
  assumes "0 \<le> b" and "b < 15"
  shows "\<bar>bump b - (b + 5 / 1000)\<bar> \<le> 1 / 2 ^ 49"
proof -
  have c: "\<bar>c005 - 5 / 1000\<bar> \<le> 1 / 2 ^ 50" by (simp add: c005_def)
  have "0 < b + c005" "b + c005 < 16" using assms c005_bounds by simp_all
  from double_round_error [OF this] have "\<bar>double_round (b + c005) - (b + c005)\<bar> \<le> 1 / 2 ^ 50" .
  with c have "\<bar>double_round (b + c005) - (b + 5 / 1000)\<bar> \<le> 1 / 2 ^ 50 + 1 / 2 ^ 50" by linarith
  also have "\<dots> = (1 :: real) / 2 ^ 49" by simp
  finally show ?thesis using assms(2) by (simp add: bump_def)
qed

text \<open>The literal \<^verbatim>\<open>.005\<close> denotes the binary64 number nearest to \<open>5/1000\<close>.\<close>

lemma two_powr_neg: "2 powr (real_of_int (- int n)) = 1 / 2 ^ n"
  by (simp add: powr_minus powr_realpow divide_inverse)

lemma c005_literal: "double_round (5 / 1000) = c005"
proof -
  have p8: "2 powr (real_of_int (- 8)) = 1 / 2 ^ 8" using two_powr_neg [of 8] by simp
  have p7: "2 powr (real_of_int (- 8 + 1)) = 1 / 2 ^ 7" using two_powr_neg [of 7] by simp
  have p60: "2 powr (real_of_int (- 60)) = 1 / 2 ^ 60" using two_powr_neg [of 60] by simp
  have "\<lfloor>log 2 (5 / 1000 :: real)\<rfloor> = - 8"
    by (rule floor_log2_eq) (simp_all only: p8 p7, simp_all)
  then have e: "max (\<lfloor>log 2 \<bar>5 / 1000 :: real\<bar>\<rfloor> - 52) (- 1074) = - 60" by simp
  have "round_to (- 60) (5 / 1000) = of_int 5764607523034235 * 2 powr (real_of_int (- 60))"
    by (rule round_to_nearest) (simp only: p60, simp)
  with e show ?thesis by (simp only: double_round_def p60 c005_def) simp
qed

subsection \<open>The activation of a vertex\<close>

lemma list_all_map_entry:
  assumes "list_all Q g"
    and "\<And>v. map_of g k = Some v \<Longrightarrow> Q (k, v) \<Longrightarrow> Q (k, f v)"
  shows "list_all Q (AList.map_entry k f g)"
  using assms
proof (induction g)
  case Nil
  then show ?case by simp
next
  case (Cons x g)
  obtain k' v' where x: "x = (k', v')" by (cases x)
  show ?case
  proof (cases "k' = k")
    case True
    with Cons.prems x show ?thesis by simp
  next
    case False
    with Cons x show ?thesis by simp
  qed
qed

lemma list_all_update:
  assumes "list_all Q g" and "Q (k, v)"
  shows "list_all Q (AList.update k v g)"
  using assms by (induction g) auto

lemma map_of_list_all:
  assumes "list_all Q g" and "map_of g k = Some v"
  shows "Q (k, v)"
  using assms by (induction g) (auto split: if_splits)

lemma bump_iter_zero: "\<exists>n::nat. (bump ^^ n) 0 = 0"
  by (rule exI [of _ 0]) simp

lemma burnt_steps_add_vertex:
  assumes "burnt_steps g"
  shows "burnt_steps (add_vertex g k neigh pos w)"
proof -
  let ?Q = "\<lambda>(k :: key, v :: lvertex). \<exists>n::nat. burnt v = (bump ^^ n) 0"
  have zero: "\<And>v :: lvertex. burnt v = 0 \<Longrightarrow> ?Q (k, v)"
    using bump_iter_zero by simp
  have g1: "list_all ?Q (if map_of g k = None
        then AList.update k \<lparr>weight = w, neighbors = (case neigh of None \<Rightarrow> [] | Some ns \<Rightarrow> ns),
               loc = (case pos of None \<Rightarrow> (0, 0) | Some p \<Rightarrow> p), burnt = 0\<rparr> g
        else g)" (is "list_all ?Q ?g1")
    using assms bump_iter_zero by (auto simp: burnt_steps_def intro!: list_all_update)
  have g2: "list_all ?Q (AList.map_entry k (\<lambda>v. v\<lparr>burnt := 0\<rparr>) ?g1)" (is "list_all ?Q ?g2")
    by (rule list_all_map_entry [OF g1]) (simp add: bump_iter_zero)
  have "list_all ?Q (AList.map_entry k (\<lambda>v. v\<lparr>loc := (case pos of None \<Rightarrow> (0, 0) | Some p \<Rightarrow> p)\<rparr>) ?g2)"
    by (rule list_all_map_entry [OF g2]) simp
  then show ?thesis by (simp add: burnt_steps_def add_vertex_def Let_def)
qed

lemma burnt_steps_set_weight:
  assumes "burnt_steps g" and "set_weight g k w = Inr g'"
  shows "burnt_steps g'"
proof -
  from assms(2) obtain v where v: "map_of g k = Some v" and g': "g' = AList.update k (v\<lparr>weight := w\<rparr>) g"
    by (auto simp: set_weight_def split: option.splits)
  from assms(1) v have "\<exists>n::nat. burnt v = (bump ^^ n) 0"
    using map_of_list_all [of _ g k v] by (fastforce simp: burnt_steps_def)
  with assms(1) show ?thesis unfolding g' burnt_steps_def
    by (intro list_all_update) auto
qed

lemma burnt_step_next:
  assumes "\<exists>n::nat. b = (bump ^^ n) 0" and "b < 15"
  shows "\<exists>n::nat. double_round (b + c005) = (bump ^^ n) 0"
proof -
  from assms obtain n :: nat where "b = (bump ^^ n) 0" by blast
  with assms(2) have "double_round (b + c005) = (bump ^^ Suc n) 0" by (simp add: bump_def)
  then show ?thesis by blast
qed

lemma burnt_steps_reinforce_vertex:
  assumes "burnt_steps g"
  shows "burnt_steps (final_graph id (reinforce_vertex g k))"
proof (cases "map_of g k")
  case None
  with assms show ?thesis by (simp add: reinforce_vertex_def)
next
  case (Some v)
  let ?Q = "\<lambda>(k :: key, v :: lvertex). \<exists>n::nat. burnt v = (bump ^^ n) 0"
  let ?g1 = "if burnt v < 15 then AList.map_entry k (\<lambda>v. v\<lparr>burnt := double_round (burnt v + c005)\<rparr>) g else g"
  from assms have g: "list_all ?Q g" by (simp add: burnt_steps_def)
  have g1: "list_all ?Q ?g1"
  proof (cases "burnt v < 15")
    case True
    have "list_all ?Q (AList.map_entry k (\<lambda>v. v\<lparr>burnt := double_round (burnt v + c005)\<rparr>) g)"
    proof (rule list_all_map_entry [OF g])
      fix v' assume "map_of g k = Some v'" and q: "?Q (k, v')"
      with Some have "v' = v" by simp
      with q True show "?Q (k, v'\<lparr>burnt := double_round (burnt v' + c005)\<rparr>)"
        using burnt_step_next [of "burnt v"] by simp
    qed
    with True show ?thesis by simp
  next
    case False
    with g show ?thesis by simp
  qed
  have w1: "list_all ?Q (AList.map_entry k (\<lambda>v. v\<lparr>weight := 1\<rparr>) ?g1)"
    by (rule list_all_map_entry [OF g1]) simp
  have w2: "list_all ?Q (AList.map_entry k (\<lambda>v. v\<lparr>weight := weight v * (11 / 10)\<rparr>) ?g1)"
    by (rule list_all_map_entry [OF g1]) simp
  from Some g1 w1 w2 show ?thesis
    by (simp add: reinforce_vertex_def Let_def burnt_steps_def)
qed

lemma burnt_steps_reinforce_path:
  assumes "burnt_steps g"
  shows "burnt_steps (final_graph id (reinforce_path g path))"
  using assms
proof (induction path arbitrary: g)
  case Nil
  then show ?case by simp
next
  case (Cons k path)
  from burnt_steps_reinforce_vertex [OF Cons.prems, of k] Cons.IH
  show ?case by (cases "reinforce_vertex g k") auto
qed

lemma burnt_steps_decay_vertex:
  assumes "burnt_steps g"
  shows "burnt_steps (final_graph id (decay_vertex g k))"
proof (cases "map_of g k")
  case None
  with assms show ?thesis by (simp add: decay_vertex_def)
next
  case (Some v)
  let ?Q = "\<lambda>(k :: key, v :: lvertex). \<exists>n::nat. burnt v = (bump ^^ n) 0"
  from assms have g: "list_all ?Q g" by (simp add: burnt_steps_def)
  have "list_all ?Q (AList.map_entry k (\<lambda>v. v\<lparr>weight := weight v - 25 / 1000\<rparr>) g)"
    by (rule list_all_map_entry [OF g]) simp
  with Some g show ?thesis by (simp add: decay_vertex_def burnt_steps_def)
qed

lemma burnt_steps_decay_notpath:
  assumes "burnt_steps g"
  shows "burnt_steps (final_graph id (decay_notpath g ks))"
  using assms
proof (induction ks arbitrary: g)
  case Nil
  then show ?case by simp
next
  case (Cons k ks)
  from burnt_steps_decay_vertex [OF Cons.prems, of k] Cons.IH
  show ?case by (cases "decay_vertex g k") auto
qed

lemma burnt_steps_set_active_states:
  assumes "burnt_steps g"
  shows "burnt_steps (final_graph id (set_active_states g seed))"
proof (cases "find_shortest_path g seed (KStr ''0'')")
  case (Inl e)
  with assms show ?thesis by (simp add: set_active_states_def)
next
  case (Inr path)
  show ?thesis
  proof (cases "reinforce_path g path")
    case (Returned g1)
    with burnt_steps_reinforce_path [OF assms, of path] have "burnt_steps g1" by simp
    from burnt_steps_decay_notpath [OF this] Inr Returned show ?thesis
      by (simp add: set_active_states_def Let_def)
  next
    case (Raised e g1)
    with burnt_steps_reinforce_path [OF assms, of path] Inr show ?thesis
      by (simp add: set_active_states_def Let_def)
  qed
qed

lemma burnt_steps_make_new_vertex:
  "burnt_steps graph \<Longrightarrow> burnt_steps (final_graph fst (make_new_vertex graph draws))"
proof (induction graph draws rule: make_new_vertex.induct)
  case (1 graph draws)
  show ?case
  proof (cases "pick_expansion_vertex graph draws")
    case (Inl e)
    with "1.prems" show ?thesis by (simp add: make_new_vertex.simps)
  next
    case (Inr a)
    obtain expansion_vertex draws1 where a: "a = (expansion_vertex, draws1)" by (cases a)
    show ?thesis
    proof (cases "pick_expansion_point graph expansion_vertex draws1")
      case (Inl e)
      with "1.prems" Inr a show ?thesis by (simp add: make_new_vertex.simps)
    next
      case pp: (Inr b)
      obtain expansion_point draws2 where b: "b = (expansion_point, draws2)" by (cases b)
      show ?thesis
      proof (cases "is_too_close graph expansion_point")
        case (Inl e)
        with "1.prems" Inr a pp b show ?thesis by (simp add: make_new_vertex.simps)
      next
        case itc: (Inr near)
        let ?inner = "if truthy near \<and> Some expansion_vertex \<noteq> near
                      then make_new_vertex graph draws2
                      else Returned (add_vertex graph (KStr (str_nat (length graph)))
                             (Some [expansion_vertex]) (Some expansion_point) 1, draws2)"
        have inner: "burnt_steps (final_graph fst ?inner)"
        proof (cases "truthy near \<and> Some expansion_vertex \<noteq> near")
          case True
          with "1.IH" [OF Inr a [symmetric] pp b [symmetric] itc _ "1.prems"] show ?thesis
            by simp
        next
          case False
          then have "?inner = Returned (add_vertex graph (KStr (str_nat (length graph)))
                             (Some [expansion_vertex]) (Some expansion_point) 1, draws2)"
            by (rule if_not_P)
          with burnt_steps_add_vertex [OF "1.prems"] show ?thesis by simp
        qed
        have eq: "make_new_vertex graph draws =
          (case ?inner of
             Raised e g \<Rightarrow> Raised e g
           | Returned (graph', draws3) \<Rightarrow>
               (case set_active_states graph' expansion_vertex of
                  Raised e g \<Rightarrow> Raised e g
                | Returned graph'' \<Rightarrow> Returned (graph'', draws3)))"
          using Inr a pp b itc by (subst make_new_vertex.simps) simp
        show ?thesis
        proof (cases ?inner)
          case (Raised e g)
          with inner eq show ?thesis by simp
        next
          case (Returned c)
          obtain graph' draws3 where c: "c = (graph', draws3)" by (cases c)
          with Returned inner have "burnt_steps graph'" by simp
          from burnt_steps_set_active_states [OF this, of expansion_vertex] Returned c eq
          show ?thesis by (cases "set_active_states graph' expansion_vertex") simp_all
        qed
      qed
    qed
  qed
qed

lemma reachable_burnt_steps:
  assumes "reachable g"
  shows "burnt_steps g"
  using assms
proof (induction rule: reachable.induct)
  case (created g)
  have "\<And>x. (case x of (k :: key, v :: lvertex) \<Rightarrow> burnt v = 0) \<Longrightarrow>
     (case x of (k, v) \<Rightarrow> \<exists>n::nat. burnt v = (bump ^^ n) 0)"
    by (auto intro: exI [of _ 0])
  with created show ?case unfolding burnt_steps_def list_all_iff by blast
next
  case (added g k neigh pos w)
  then show ?case by (simp add: burnt_steps_add_vertex)
next
  case (weighted g k w g')
  then show ?case using burnt_steps_set_weight by blast
next
  case (reinforced g seed)
  then show ?case by (simp add: burnt_steps_set_active_states)
next
  case (grown g draws)
  then show ?case by (simp add: burnt_steps_make_new_vertex)
qed

lemma burnt_steps_range:
  assumes "burnt_steps g" and "(k, v) \<in> set g"
  shows "0 \<le> burnt v \<and> burnt v \<le> burnt_cap"
proof -
  from assms obtain n :: nat where "burnt v = (bump ^^ n) 0"
    unfolding burnt_steps_def list_all_iff by fastforce
  with bump_iter_nonneg [of n] bump_iter_le_cap [of n] show ?thesis by simp
qed

lemma burnt_le_refl: "burnt_le g g"
  by (simp add: burnt_le_def)

lemma burnt_le_trans: "burnt_le g g1 \<Longrightarrow> burnt_le g1 g2 \<Longrightarrow> burnt_le g g2"
  unfolding burnt_le_def by (meson order_trans)

lemma paths_distinct:
  "distinct path \<Longrightarrow> start_vertex \<notin> set path \<Longrightarrow>
     \<forall>p \<in> set (find_all_paths graph start_vertex end_vertex path). distinct p"
  "distinct path \<Longrightarrow>
     \<forall>p \<in> set (extend_paths graph end_vertex path vs). distinct p"
proof (induction graph start_vertex end_vertex path and graph end_vertex path vs
       rule: find_all_paths_extend_paths.induct)
  case (1 graph start_vertex end_vertex path)
  show ?case
  proof (cases "start_vertex = end_vertex")
    case True
    with "1.prems" show ?thesis by (simp add: find_all_paths.simps)
  next
    case False
    show ?thesis
    proof (cases "map_of graph start_vertex")
      case None
      with False show ?thesis by (simp add: find_all_paths.simps)
    next
      case (Some v)
      from "1.prems" have "distinct (path @ [start_vertex])" by simp
      with "1.IH" [OF False Some] False Some show ?thesis
        by (simp add: find_all_paths.simps)
    qed
  qed
next
  case (2 graph end_vertex path)
  then show ?case by simp
next
  case (3 graph end_vertex path vertex rest)
  then show ?case by auto
qed

lemma path_weights_length:
  "path_weights g ps = Inr ws \<Longrightarrow> length ws = length ps"
  by (induction ps arbitrary: ws) (auto split: sum.splits)

lemma py_index_less:
  "py_index ws x = Inr i \<Longrightarrow> i < length ws"
  by (induction ws arbitrary: i) (auto split: sum.splits if_splits)

lemma find_shortest_path_enumerated:
  assumes "find_shortest_path g s e = Inr p"
  shows "p \<in> set (find_all_paths g s e [])"
proof -
  from assms obtain ws m i where ws: "path_weights g (find_all_paths g s e []) = Inr ws"
    and "py_max ws = Inr m" and i: "py_index ws m = Inr i" and p: "p = find_all_paths g s e [] ! i"
    by (auto simp: find_shortest_path_def get_path_weights_def Let_def split: sum.splits)
  from i have "i < length ws" by (rule py_index_less)
  with path_weights_length [OF ws] p show ?thesis by simp
qed

lemma find_shortest_path_distinct:
  assumes "find_shortest_path g s e = Inr p"
  shows "distinct p"
  using find_shortest_path_enumerated [OF assms] paths_distinct(1) [of "[]" s g e] by simp

lemma burnt_of_map_entry:
  "burnt_of (AList.map_entry k f g) k' =
     (if k' = k then map_option (\<lambda>v. burnt (f v)) (map_of g k) else burnt_of g k')"
  by (simp add: burnt_of_def map_of_map_entry option.map_comp comp_def)

lemma burnt_of_reinforce_vertex:
  assumes "reinforce_vertex g k = Returned g'"
  shows "burnt_of g' k' = (if k' = k then map_option bump (burnt_of g k) else burnt_of g k')"
proof -
  from assms obtain v where v: "map_of g k = Some v"
    by (auto simp: reinforce_vertex_def split: option.splits)
  let ?g1 = "if burnt v < 15 then AList.map_entry k (\<lambda>v. v\<lparr>burnt := double_round (burnt v + c005)\<rparr>) g else g"
  have g1: "burnt_of ?g1 k' = (if k' = k then map_option bump (burnt_of g k) else burnt_of g k')"
    using v by (auto simp: map_of_map_entry bump_def burnt_of_def)
  have m1: "map_of ?g1 k = Some (if burnt v < 15 then v\<lparr>burnt := double_round (burnt v + c005)\<rparr> else v)"
    using v by (simp add: map_of_map_entry)
  have keep: "\<And>f. (\<And>x. burnt (f x) = burnt x) \<Longrightarrow> burnt_of (AList.map_entry k f ?g1) k' = burnt_of ?g1 k'"
    using m1 by (simp only: burnt_of_map_entry) (simp add: burnt_of_def)
  from assms v have "g' = ?g1 \<or> g' = AList.map_entry k (\<lambda>v. v\<lparr>weight := 1\<rparr>) ?g1 \<or>
      g' = AList.map_entry k (\<lambda>v. v\<lparr>weight := weight v * (11 / 10)\<rparr>) ?g1"
    by (auto simp: reinforce_vertex_def Let_def split: if_splits)
  then have "burnt_of g' k' = burnt_of ?g1 k'"
    using keep [of "\<lambda>v. v\<lparr>weight := 1\<rparr>"] keep [of "\<lambda>v. v\<lparr>weight := weight v * (11 / 10)\<rparr>"]
    by auto
  with g1 show ?thesis by simp
qed

lemma burnt_of_reinforce_vertex_raised:
  assumes "reinforce_vertex g k = Raised e g'"
  shows "g' = g"
  using assms by (auto simp: reinforce_vertex_def Let_def split: option.splits if_splits)

lemma burnt_of_reinforce_path:
  assumes "distinct path" and "reinforce_path g path = Returned g'"
  shows "burnt_of g' k = (if k \<in> set path then map_option bump (burnt_of g k) else burnt_of g k)"
  using assms
proof (induction path arbitrary: g)
  case Nil
  then show ?case by simp
next
  case (Cons a path)
  from Cons.prems(2) obtain g1 where g1: "reinforce_vertex g a = Returned g1"
      and rest: "reinforce_path g1 path = Returned g'"
    by (auto split: result.splits)
  from Cons.prems(1) have d: "distinct path" and a: "a \<notin> set path" by simp_all
  from Cons.IH [OF d rest]
  have "burnt_of g' k = (if k \<in> set path then map_option bump (burnt_of g1 k) else burnt_of g1 k)" .
  with burnt_of_reinforce_vertex [OF g1, of k] a show ?case by auto
qed

lemma burnt_le_reinforce_vertex:
  assumes "\<forall>k b. burnt_of g k = Some b \<longrightarrow> 0 \<le> b"
  shows "burnt_le g (final_graph id (reinforce_vertex g k))"
    and "\<forall>k' b. burnt_of (final_graph id (reinforce_vertex g k)) k' = Some b \<longrightarrow> 0 \<le> b"
proof -
  have "burnt_le g (final_graph id (reinforce_vertex g k)) \<and>
    (\<forall>k' b. burnt_of (final_graph id (reinforce_vertex g k)) k' = Some b \<longrightarrow> 0 \<le> b)"
  proof (cases "reinforce_vertex g k")
    case (Returned g')
    have eff: "\<And>k'. burnt_of g' k' =
        (if k' = k then map_option bump (burnt_of g k) else burnt_of g k')"
      using burnt_of_reinforce_vertex [OF Returned] .
    have le: "burnt_le g g'"
      unfolding burnt_le_def
    proof (intro allI impI)
      fix k' b assume b: "burnt_of g k' = Some b"
      with assms have "0 \<le> b" by blast
      from bump_ge [OF this] b eff [of k']
      show "\<exists>b'. burnt_of g' k' = Some b' \<and> b \<le> b'" by auto
    qed
    have nn: "\<forall>k' b. burnt_of g' k' = Some b \<longrightarrow> 0 \<le> b"
    proof (intro allI impI)
      fix k' b assume b: "burnt_of g' k' = Some b"
      show "0 \<le> b"
      proof (cases "k' = k")
        case True
        with b eff [of k'] obtain b0 where b0: "burnt_of g k = Some b0" "b = bump b0"
          by (cases "burnt_of g k") auto
        from assms b0(1) have "0 \<le> b0" by blast
        with bump_ge [OF this] b0(2) show ?thesis by simp
      next
        case False
        with b eff [of k'] have "burnt_of g k' = Some b" by simp
        with assms show ?thesis by blast
      qed
    qed
    from le nn Returned show ?thesis by simp
  next
    case (Raised e g')
    with burnt_of_reinforce_vertex_raised [OF Raised] assms show ?thesis
      by (simp add: burnt_le_refl)
  qed
  then show "burnt_le g (final_graph id (reinforce_vertex g k))"
    and "\<forall>k' b. burnt_of (final_graph id (reinforce_vertex g k)) k' = Some b \<longrightarrow> 0 \<le> b"
    by simp_all
qed

lemma burnt_le_reinforce_path:
  assumes "\<forall>k b. burnt_of g k = Some b \<longrightarrow> 0 \<le> b"
  shows "burnt_le g (final_graph id (reinforce_path g path))"
  using assms
proof (induction path arbitrary: g)
  case Nil
  then show ?case by (simp add: burnt_le_refl)
next
  case (Cons a path)
  show ?case
  proof (cases "reinforce_vertex g a")
    case (Returned g1)
    with burnt_le_reinforce_vertex [OF Cons.prems, of a]
    have le: "burnt_le g g1" and nn: "\<forall>k b. burnt_of g1 k = Some b \<longrightarrow> 0 \<le> b"
      by simp_all
    from burnt_le_trans [OF le Cons.IH [OF nn]] Returned show ?thesis by simp
  next
    case (Raised e g1)
    with burnt_le_reinforce_vertex(1) [OF Cons.prems, of a] show ?thesis by simp
  qed
qed

lemma burnt_of_decay_vertex:
  "burnt_of (final_graph id (decay_vertex g k)) k' = burnt_of g k'"
proof (cases "map_of g k")
  case None
  then show ?thesis by (simp add: decay_vertex_def)
next
  case (Some v)
  then have "burnt_of (AList.map_entry k (\<lambda>v. v\<lparr>weight := weight v - 25 / 1000\<rparr>) g) k' = burnt_of g k'"
    by (simp only: burnt_of_map_entry) (simp add: burnt_of_def)
  with Some show ?thesis by (simp add: decay_vertex_def)
qed

lemma burnt_of_decay_notpath:
  "burnt_of (final_graph id (decay_notpath g ks)) k' = burnt_of g k'"
proof (induction ks arbitrary: g)
  case Nil
  then show ?case by simp
next
  case (Cons a ks)
  show ?case
  proof (cases "decay_vertex g a")
    case (Returned g1)
    with burnt_of_decay_vertex [of g a k'] Cons.IH [of g1] show ?thesis by simp
  next
    case (Raised e g1)
    with burnt_of_decay_vertex [of g a k'] show ?thesis by simp
  qed
qed

lemma burnt_le_set_active_states:
  assumes "list_all (\<lambda>(k, v). 0 \<le> burnt v) g"
  shows "burnt_le g (final_graph id (set_active_states g seed))"
proof -
  have nn: "\<forall>k b. burnt_of g k = Some b \<longrightarrow> 0 \<le> b"
  proof (intro allI impI)
    fix k b assume "burnt_of g k = Some b"
    then obtain v where v: "map_of g k = Some v" "burnt v = b" by (auto simp: burnt_of_def)
    from map_of_list_all [OF assms v(1)] v(2) show "0 \<le> b" by simp
  qed
  show ?thesis
  proof (cases "find_shortest_path g seed (KStr ''0'')")
    case (Inl e)
    then show ?thesis by (simp add: set_active_states_def burnt_le_refl)
  next
    case (Inr path)
    show ?thesis
    proof (cases "reinforce_path g path")
      case (Returned g1)
      with burnt_le_reinforce_path [OF nn, of path] have a: "burnt_le g g1" by simp
      have "burnt_le g1 (final_graph id (decay_notpath g1 (setdiff1d (vertices g) path)))"
        by (simp add: burnt_le_def burnt_of_decay_notpath)
      from burnt_le_trans [OF a this] Inr Returned show ?thesis
        by (simp add: set_active_states_def Let_def)
    next
      case (Raised e g1)
      with burnt_le_reinforce_path [OF nn, of path] Inr show ?thesis
        by (simp add: set_active_states_def Let_def)
    qed
  qed
qed

lemma burnt_of_set_active_states:
  assumes "set_active_states g seed = Returned g'"
  shows "\<exists>path. find_shortest_path g seed (KStr ''0'') = Inr path \<and>
           (\<forall>k. burnt_of g' k = (if k \<in> set path then map_option bump (burnt_of g k) else burnt_of g k))"
proof -
  from assms obtain path g1 where path: "find_shortest_path g seed (KStr ''0'') = Inr path"
      and g1: "reinforce_path g path = Returned g1"
      and g': "decay_notpath g1 (setdiff1d (vertices g) path) = Returned g'"
    by (auto simp: set_active_states_def Let_def split: sum.splits result.splits)
  have "\<forall>k. burnt_of g' k = (if k \<in> set path then map_option bump (burnt_of g k) else burnt_of g k)"
  proof
    fix k
    from burnt_of_decay_notpath [of g1 "setdiff1d (vertices g) path" k] g'
    have "burnt_of g' k = burnt_of g1 k" by simp
    with burnt_of_reinforce_path [OF find_shortest_path_distinct [OF path] g1, of k]
    show "burnt_of g' k = (if k \<in> set path then map_option bump (burnt_of g k) else burnt_of g k)"
      by simp
  qed
  with path show ?thesis by blast
qed

lemma burnt_of_add_vertex:
  "burnt_of (add_vertex g k neigh pos w) k = Some 0"
proof (cases "map_of g k")
  case None
  then show ?thesis
    by (simp add: add_vertex_def Let_def burnt_of_def map_of_map_entry update_conv')
next
  case (Some v)
  then show ?thesis
    by (simp add: add_vertex_def Let_def burnt_of_def map_of_map_entry)
qed

lemma bump_zero: "bump 0 = c005"
  using burnt_after_1 by (simp add: scaled_def c005_def)

lemma double_round_c005: "double_round c005 = c005"
  using bump_zero by (simp add: bump_def)

lemma best_path_graph_skew:
  "find_shortest_path graph_skew (KStr ''1'') (KStr ''0'') = Inr [KStr ''1'', KStr ''0'']"
  by (simp add: find_shortest_path_def get_path_weights_def find_all_paths.simps graph_skew_def)

lemma set_active_states_graph_skew:
  "set_active_states graph_skew (KStr ''1'') = Returned graph_skew_reinforced"
  by (simp add: set_active_states_def best_path_graph_skew)
     (simp add: setdiff1d_def is_int_def np_str_def vertices_def double_round_c005
        reinforce_vertex_def decay_vertex_def graph_skew_def graph_skew_reinforced_def)

lemma best_path_graph_root:
  "find_shortest_path (graph_root b) (KStr ''0'') (KStr ''0'') = Inr [KStr ''0'']"
  by (simp add: find_shortest_path_def get_path_weights_def find_all_paths.simps graph_root_def)

lemma set_active_states_graph_root:
  "set_active_states (graph_root b) (KStr ''0'') = Returned (graph_root (bump b))"
  by (simp add: set_active_states_def best_path_graph_root)
     (simp add: setdiff1d_def is_int_def np_str_def vertices_def bump_def
        reinforce_vertex_def graph_root_def)

lemma reachable_graph_root: "reachable (graph_root ((bump ^^ n) 0))"
proof (induction n)
  case 0
  show ?case by (rule reachable.created) (simp add: graph_root_def)
next
  case (Suc n)
  from reachable.reinforced [OF Suc, of "KStr ''0''"] show ?case
    by (simp add: set_active_states_graph_root)
qed

text \<open>
  Claim C6: the activation of a vertex is \<open>0\<close> after \<open>addVertex\<close> creates it; no call of
  \<open>reinforce(seed)\<close> on a graph without negative activations lowers or removes an
  activation, whether it returns or raises; a call that returns replaces the activation \<open>b\<close>
  of each vertex of the best path by \<open>bump b\<close>, the binary64 sum of \<open>b\<close> and \<^verbatim>\<open>.005\<close> (the
  number \<open>c005\<close>, to which \<open>5/1000\<close> is rounded) when \<open>b\<close> is
  below \<open>15\<close> (within \<open>1 / 2 ^ 49\<close> of \<open>b + 0.005\<close>) and \<open>b\<close> itself otherwise, and changes no other
  activation; and in every reachable state every activation lies between \<open>0\<close> and
  \<open>burnt_cap\<close>, the activation after \<open>3000\<close> increments, which is above \<open>15\<close>.
\<close>

theorem C6_activation:
  "burnt_of (add_vertex g k neigh pos w) k = Some 0 \<and>
   (list_all (\<lambda>(k, v). 0 \<le> burnt v) g \<longrightarrow>
      burnt_le g (final_graph id (set_active_states g seed))) \<and>
   (set_active_states g seed = Returned g' \<longrightarrow>
      (\<exists>path. find_shortest_path g seed (KStr ''0'') = Inr path \<and>
         (\<forall>k. burnt_of g' k =
            (if k \<in> set path then map_option bump (burnt_of g k) else burnt_of g k)))) \<and>
   double_round (5 / 1000) = c005 \<and>
   (0 \<le> b \<and> b < 15 \<longrightarrow> \<bar>bump b - (b + 5 / 1000)\<bar> \<le> 1 / 2 ^ 49) \<and>
   (reachable g \<longrightarrow> list_all (\<lambda>(k, v). 0 \<le> burnt v \<and> burnt v \<le> burnt_cap) g)"
proof -
  have "list_all (\<lambda>(k, v). 0 \<le> burnt v \<and> burnt v \<le> burnt_cap) g" if "reachable g"
    using burnt_steps_range [OF reachable_burnt_steps [OF that]]
    by (auto simp: list_all_iff)
  with burnt_of_add_vertex [of g k neigh pos w] burnt_le_set_active_states [of g seed]
    burnt_of_set_active_states [of g seed g'] bump_accuracy [of b] c005_literal
  show ?thesis by blast
qed

text \<open>The root alone: each call of \<^verbatim>\<open>set_active_states("0")\<close> increments its activation, and the
  \<open>3000\<close>th call leaves it above \<open>15\<close>.\<close>

theorem C6_activation_counterexample:
  "(\<forall>b. set_active_states (graph_root b) (KStr ''0'') = Returned (graph_root (bump b))) \<and>
   (bump ^^ 3000) 0 = burnt_cap \<and>
   reachable (graph_root burnt_cap) \<and>
   burnt_of (graph_root burnt_cap) (KStr ''0'') = Some burnt_cap \<and>
   15 < burnt_cap \<and>
   \<not> list_all (\<lambda>(k, v). 0 \<le> burnt v \<and> burnt v \<le> 15) (graph_root burnt_cap)"
proof -
  have c: "(bump ^^ 3000) 0 = burnt_cap"
    using burnt_after_3000_cap by (simp add: burnt_cap_def)
  with reachable_graph_root [of 3000] have r: "reachable (graph_root burnt_cap)" by simp
  have b: "burnt_of (graph_root burnt_cap) (KStr ''0'') = Some burnt_cap"
    by (simp add: burnt_of_def graph_root_def)
  have n: "\<not> list_all (\<lambda>(k, v). 0 \<le> burnt v \<and> burnt v \<le> 15) (graph_root burnt_cap)"
    using burnt_cap_gt(1) by (simp add: graph_root_def)
  from set_active_states_graph_root c r b burnt_cap_gt(1) n show ?thesis by simp
qed

theorem C6_activation_witness:
  "reachable graph_skew \<and>
   list_all (\<lambda>(k, v). 0 \<le> burnt v) graph_skew \<and>
   set_active_states graph_skew (KStr ''1'') = Returned graph_skew_reinforced \<and>
   find_shortest_path graph_skew (KStr ''1'') (KStr ''0'') = Inr [KStr ''1'', KStr ''0''] \<and>
   burnt_of graph_skew (KStr ''1'') = Some 0 \<and>
   burnt_of graph_skew_reinforced (KStr ''1'') = Some (bump 0) \<and>
   \<bar>bump 0 - 5 / 1000\<bar> \<le> 1 / 2 ^ 49 \<and>
   burnt_le graph_skew graph_skew_reinforced \<and>
   reachable graph_skew_reinforced \<and>
   list_all (\<lambda>(k, v). 0 \<le> burnt v \<and> burnt v \<le> burnt_cap) graph_skew_reinforced"
proof -
  have r0: "reachable graph_skew"
    by (rule reachable.created) (simp add: graph_skew_def)
  from reachable.reinforced [OF r0, of "KStr ''1''"]
  have r1: "reachable graph_skew_reinforced"
    by (simp add: set_active_states_graph_skew)
  have nn: "list_all (\<lambda>(k, v). 0 \<le> burnt v) graph_skew"
    by (simp add: graph_skew_def)
  have b: "burnt_of graph_skew (KStr ''1'') = Some 0"
      "burnt_of graph_skew_reinforced (KStr ''1'') = Some (bump 0)"
    by (simp_all add: burnt_of_def graph_skew_def graph_skew_reinforced_def bump_zero)
  from C6_activation [of graph_skew "KStr ''0''" None None 1 "KStr ''1''" graph_skew_reinforced 0]
    nn set_active_states_graph_skew
  have le: "burnt_le graph_skew graph_skew_reinforced" and acc: "\<bar>bump 0 - 5 / 1000\<bar> \<le> 1 / 2 ^ 49"
    by simp_all
  from C6_activation [of graph_skew_reinforced "KStr ''0''" None None 1 "KStr ''0''" graph_skew_reinforced 0] r1
  have "list_all (\<lambda>(k, v). 0 \<le> burnt v \<and> burnt v \<le> burnt_cap) graph_skew_reinforced" by blast
  with r0 r1 nn b le acc set_active_states_graph_skew best_path_graph_skew show ?thesis by simp
qed

section \<open>The edge of a new vertex\<close>

lemma neighbors_of_map_entry:
  assumes "\<And>v. neighbors (f v) = neighbors v"
  shows "neighbors_of (AList.map_entry k f g) k' = neighbors_of g k'"
  using assms by (cases "map_of g k") (auto simp: neighbors_of_def map_of_map_entry)

lemma neighbors_of_reinforce_vertex:
  "neighbors_of (final_graph id (reinforce_vertex g k)) k' = neighbors_of g k'"
proof (cases "map_of g k")
  case None
  then show ?thesis by (simp add: reinforce_vertex_def)
next
  case (Some v)
  then show ?thesis
    by (simp add: reinforce_vertex_def Let_def neighbors_of_map_entry)
qed

lemma neighbors_of_reinforce_path:
  "neighbors_of (final_graph id (reinforce_path g path)) k' = neighbors_of g k'"
proof (induction path arbitrary: g)
  case Nil
  then show ?case by simp
next
  case (Cons a path)
  show ?case
  proof (cases "reinforce_vertex g a")
    case (Returned g1)
    with neighbors_of_reinforce_vertex [of g a k'] Cons.IH [of g1] show ?thesis by simp
  next
    case (Raised e g1)
    with neighbors_of_reinforce_vertex [of g a k'] show ?thesis by simp
  qed
qed

lemma neighbors_of_decay_vertex:
  "neighbors_of (final_graph id (decay_vertex g k)) k' = neighbors_of g k'"
proof (cases "map_of g k")
  case None
  then show ?thesis by (simp add: decay_vertex_def)
next
  case (Some v)
  then show ?thesis by (simp add: decay_vertex_def neighbors_of_map_entry)
qed

lemma neighbors_of_decay_notpath:
  "neighbors_of (final_graph id (decay_notpath g ks)) k' = neighbors_of g k'"
proof (induction ks arbitrary: g)
  case Nil
  then show ?case by simp
next
  case (Cons a ks)
  show ?case
  proof (cases "decay_vertex g a")
    case (Returned g1)
    with neighbors_of_decay_vertex [of g a k'] Cons.IH [of g1] show ?thesis by simp
  next
    case (Raised e g1)
    with neighbors_of_decay_vertex [of g a k'] show ?thesis by simp
  qed
qed

lemma neighbors_of_set_active_states:
  "neighbors_of (final_graph id (set_active_states g seed)) k' = neighbors_of g k'"
proof (cases "find_shortest_path g seed (KStr ''0'')")
  case (Inl e)
  then show ?thesis by (simp add: set_active_states_def)
next
  case (Inr path)
  show ?thesis
  proof (cases "reinforce_path g path")
    case (Returned g1)
    with neighbors_of_reinforce_path [of g path k']
    have "neighbors_of g1 k' = neighbors_of g k'" by simp
    with neighbors_of_decay_notpath [of g1 "setdiff1d (vertices g) path" k'] Inr Returned
    show ?thesis by (simp add: set_active_states_def Let_def)
  next
    case (Raised e g1)
    with neighbors_of_reinforce_path [of g path k'] Inr show ?thesis
      by (simp add: set_active_states_def Let_def)
  qed
qed

lemma neighbors_of_add_vertex_new:
  assumes "map_of g k = None"
  shows "neighbors_of (add_vertex g k (Some ns) pos w) k = Some ns"
  using assms
  by (simp add: add_vertex_def Let_def neighbors_of_def map_of_map_entry update_conv')

lemma neighbors_of_add_vertex_other:
  assumes "k' \<noteq> k"
  shows "neighbors_of (add_vertex g k neigh pos w) k' = neighbors_of g k'"
  using assms
  by (simp add: add_vertex_def Let_def neighbors_of_def map_of_map_entry update_conv')

lemma edges_of_vertex_mono:
  "set es \<subseteq> set (edges_of_vertex k ns es)"
proof (induction ns arbitrary: es)
  case Nil
  then show ?case by simp
next
  case (Cons a ns)
  let ?es = "if {a, k} \<notin> set es then es @ [{k, a}] else es"
  have "set es \<subseteq> set ?es" by auto
  also have "set ?es \<subseteq> set (edges_of_vertex k ns ?es)" by (rule Cons.IH)
  finally show ?case by simp
qed

lemma edges_of_vertex_has:
  assumes "n \<in> set ns"
  shows "{k, n} \<in> set (edges_of_vertex k ns es)"
  using assms
proof (induction ns arbitrary: es)
  case Nil
  then show ?case by simp
next
  case (Cons a ns)
  let ?es = "if {a, k} \<notin> set es then es @ [{k, a}] else es"
  show ?case
  proof (cases "n = a")
    case True
    have "{k, a} \<in> set ?es" by (auto simp: insert_commute)
    with edges_of_vertex_mono [of ?es k ns] True show ?thesis by auto
  next
    case False
    with Cons.prems have "n \<in> set ns" by simp
    from Cons.IH [OF this, of ?es] show ?thesis by simp
  qed
qed

lemma edges_loop_mono:
  "set es \<subseteq> set (edges_loop g es)"
proof (induction g es rule: edges_loop.induct)
  case (1 es)
  then show ?case by simp
next
  case (2 vertex v rest es)
  from edges_of_vertex_mono [of es vertex "neighbors v"] 2 show ?case by auto
qed

lemma edges_loop_has:
  assumes "(k, vx) \<in> set g" and "n \<in> set (neighbors vx)"
  shows "{k, n} \<in> set (edges_loop g es)"
  using assms
proof (induction g es rule: edges_loop.induct)
  case (1 es)
  then show ?case by simp
next
  case (2 vertex v rest es)
  show ?case
  proof (cases "(k, vx) = (vertex, v)")
    case True
    with "2.prems" have "{k, n} \<in> set (edges_of_vertex vertex (neighbors v) es)"
      by (simp add: edges_of_vertex_has)
    with edges_loop_mono [of "edges_of_vertex vertex (neighbors v) es" rest] show ?thesis by auto
  next
    case False
    with "2.prems" have "(k, vx) \<in> set rest" by auto
    from "2.IH" [OF this "2.prems"(2)] show ?thesis by simp
  qed
qed

lemma edges_has:
  assumes "neighbors_of g k = Some ns" and "n \<in> set ns"
  shows "{k, n} \<in> set (edges g)"
proof -
  from assms(1) obtain vx where "map_of g k = Some vx" and "neighbors vx = ns"
    by (auto simp: neighbors_of_def)
  then have "(k, vx) \<in> set g" by (simp add: map_of_SomeD)
  with \<open>neighbors vx = ns\<close> assms(2) show ?thesis
    by (simp add: edges_def generate_edges_def edges_loop_has)
qed

text \<open>
  Claim C2, amended: after a growth step that inserts a brand-new vertex (the branch
  without retry, the new key not yet in the graph), the neighbour list of the new vertex
  is \<open>[v]\<close>, and the neighbour list of every other key, \<open>v\<close> included, is what it was before
  the step: the edge is recorded on the side of the new vertex only, and \<open>edges()\<close> reports
  the pair of the new key and \<open>v\<close> from that one entry.
\<close>

theorem C2_new_edge:
  assumes "pick_expansion_vertex graph draws = Inr (v, draws1)"
    and "pick_expansion_point graph v draws1 = Inr (p, draws2)"
    and "is_too_close graph p = Inr near"
    and "\<not> (truthy near \<and> Some v \<noteq> near)"
    and "map_of graph (KStr (str_nat (length graph))) = None"
    and "make_new_vertex graph draws = Returned (graph', rest)"
  shows "neighbors_of graph' (KStr (str_nat (length graph))) = Some [v] \<and>
         (\<forall>k. k \<noteq> KStr (str_nat (length graph)) \<longrightarrow> neighbors_of graph' k = neighbors_of graph k) \<and>
         {KStr (str_nat (length graph)), v} \<in> set (edges graph')"
proof -
  let ?new = "KStr (str_nat (length graph))"
  let ?g1 = "add_vertex graph ?new (Some [v]) (Some p) 1"
  from assms(1-4) have eq: "make_new_vertex graph draws =
      (case set_active_states ?g1 v of
         Raised e g \<Rightarrow> Raised e g
       | Returned graph'' \<Rightarrow> Returned (graph'', draws2))"
    by (subst make_new_vertex.simps) auto
  with assms(6) have s: "set_active_states ?g1 v = Returned graph'"
    by (auto split: result.splits)
  have n: "\<And>k. neighbors_of graph' k = neighbors_of ?g1 k"
    using neighbors_of_set_active_states [of ?g1 v] s by simp
  from n neighbors_of_add_vertex_new [OF assms(5)] neighbors_of_add_vertex_other [of _ ?new graph]
  have a: "neighbors_of graph' ?new = Some [v]"
    and b: "\<forall>k. k \<noteq> ?new \<longrightarrow> neighbors_of graph' k = neighbors_of graph k"
    by simp_all
  from edges_has [OF a, of v] have "{?new, v} \<in> set (edges graph')" by simp
  with a b show ?thesis by blast
qed

lemma norm_np_eq:
  assumes "0 \<le> c" and "a\<^sup>2 + b\<^sup>2 = c\<^sup>2"
  shows "norm_np (a, b) = c"
  using assms by (simp add: norm_np_def real_sqrt_unique)

lemma net_forces_graph_skew:
  "net_forces graph_skew =
     Inr [(KStr ''0'', Some (18 / 5, - (24 / 5))), (KStr ''1'', Some (- (18 / 5), 24 / 5))]"
  by (simp add: net_forces_def net_force_def vertices_def graph_skew_def force_def vadd_def
        power2_eq_square)

lemma norms_graph_skew:
  "norm_np (18 / 5, - (24 / 5)) = 6" "norm_np (- (18 / 5), 24 / 5) = 6"
  "norm_np (- (6 / 5), 8 / 5) = 2" "norm_np (6 / 5, - (8 / 5)) = 2"
  "norm_np (- (3 / 5), 4 / 5) = 1" "norm_np (3 / 5, - (4 / 5)) = 1" "norm_np (0, 0) = 0"
  by (rule norm_np_eq; simp add: power2_eq_square)+

lemma pick_vertex_graph_skew_1:
  "pick_expansion_vertex graph_skew (3 / 4 # ds) = Inr (KStr ''1'', ds)"
  by (simp add: pick_expansion_vertex_def net_forces_graph_skew norms_graph_skew
        nan_add_def nan_sub_def nan_le_zero_def norm_nan_def)

lemma net_force_graph_skew_1:
  "net_force graph_skew (KStr ''1'') = Inr (- (18 / 5), 24 / 5)"
  by (simp add: net_force_def vertices_def graph_skew_def force_def vadd_def power2_eq_square)

lemma pick_point_graph_skew_1:
  "pick_expansion_point graph_skew (KStr ''1'') (1 # 0 # 1 # 0 # ds) = Inr ((- (6 / 5), 8 / 5), ds)"
proof -
  have m: "map_of graph_skew (KStr ''1'') =
    Some \<lparr>weight = 1, neighbors = [KStr ''0''], loc = (- (3 / 5), 4 / 5), burnt = 0\<rparr>"
    by (simp add: graph_skew_def)
  show ?thesis
    by (simp add: pick_expansion_point_def net_force_graph_skew_1 Let_def m norms_graph_skew
          vadd_def r_def)
qed

lemma too_close_graph_skew_1:
  "is_too_close graph_skew (- (6 / 5), 8 / 5) = Inr (Some (KStr ''1''))"
  by (simp add: is_too_close_def graph_skew_def vsub_def norms_graph_skew r_def
        get_nearest_vertex_def)

lemma add_vertex_graph_skew:
  "add_vertex graph_skew (KStr (str_nat (length graph_skew))) (Some [KStr ''1'']) (Some (- (6 / 5), 8 / 5)) 1 =
     graph_skew_added"
  by (simp add: add_vertex_def graph_skew_def graph_skew_added_def str_nat.simps digit_def)

lemma best_path_graph_skew_added:
  "find_shortest_path graph_skew_added (KStr ''1'') (KStr ''0'') = Inr [KStr ''1'', KStr ''0'']"
  by (simp add: find_shortest_path_def get_path_weights_def find_all_paths.simps graph_skew_added_def)

lemma set_active_states_graph_skew_added:
  "set_active_states graph_skew_added (KStr ''1'') = Returned graph_skew_grown"
  by (simp add: set_active_states_def best_path_graph_skew_added)
     (simp add: setdiff1d_def is_int_def np_str_def vertices_def
        double_round_c005 reinforce_vertex_def decay_vertex_def graph_skew_added_def graph_skew_grown_def)

lemma make_new_vertex_graph_skew:
  "make_new_vertex graph_skew (3 / 4 # 1 # 0 # 1 # 0 # ds) = Returned (graph_skew_grown, ds)"
  by (subst make_new_vertex.simps)
     (simp add: pick_vertex_graph_skew_1 pick_point_graph_skew_1 too_close_graph_skew_1
        truthy_def add_vertex_graph_skew set_active_states_graph_skew_added)

text \<open>
  Claim C2, as stated, puts the new key into the neighbour set of \<open>v\<close>. In the growth step
  of the skew graph with the draws \<open>3/4\<close>, \<open>1\<close>, \<open>0\<close>, \<open>1\<close>, \<open>0\<close> the expansion vertex is \<open>"1"\<close>
  and the new vertex is \<open>"2"\<close>; afterwards \<open>"2"\<close> has the neighbours \<open>["1"]\<close>, and \<open>"1"\<close> has
  the neighbours \<open>["0"]\<close>, as before.
\<close>

theorem C2_new_edge_counterexample:
  "make_new_vertex graph_skew [3 / 4, 1, 0, 1, 0] = Returned (graph_skew_grown, []) \<and>
   pick_expansion_vertex graph_skew [3 / 4, 1, 0, 1, 0] = Inr (KStr ''1'', [1, 0, 1, 0]) \<and>
   map_of graph_skew (KStr ''2'') = None \<and>
   neighbors_of graph_skew_grown (KStr ''2'') = Some [KStr ''1''] \<and>
   neighbors_of graph_skew_grown (KStr ''1'') = Some [KStr ''0''] \<and>
   KStr ''2'' \<notin> set [KStr ''0'']"
  by (simp add: make_new_vertex_graph_skew pick_vertex_graph_skew_1)
     (simp add: neighbors_of_def graph_skew_grown_def graph_skew_def)

theorem C2_new_edge_witness:
  "pick_expansion_vertex graph_skew [3 / 4, 1, 0, 1, 0] = Inr (KStr ''1'', [1, 0, 1, 0]) \<and>
   pick_expansion_point graph_skew (KStr ''1'') [1, 0, 1, 0] = Inr ((- (6 / 5), 8 / 5), []) \<and>
   is_too_close graph_skew (- (6 / 5), 8 / 5) = Inr (Some (KStr ''1'')) \<and>
   \<not> (truthy (Some (KStr ''1'')) \<and> Some (KStr ''1'') \<noteq> Some (KStr ''1'')) \<and>
   map_of graph_skew (KStr (str_nat (length graph_skew))) = None \<and>
   make_new_vertex graph_skew [3 / 4, 1, 0, 1, 0] = Returned (graph_skew_grown, []) \<and>
   neighbors_of graph_skew_grown (KStr (str_nat (length graph_skew))) = Some [KStr ''1''] \<and>
   neighbors_of graph_skew_grown (KStr ''1'') = neighbors_of graph_skew (KStr ''1'') \<and>
   {KStr (str_nat (length graph_skew)), KStr ''1''} \<in> set (edges graph_skew_grown)"
proof -
  have h4: "\<not> (truthy (Some (KStr ''1'')) \<and> Some (KStr ''1'') \<noteq> Some (KStr ''1''))" by simp
  have h5: "map_of graph_skew (KStr (str_nat (length graph_skew))) = None"
    by (simp add: graph_skew_def str_nat.simps digit_def)
  have ne: "KStr ''1'' \<noteq> KStr (str_nat (length graph_skew))"
    by (simp add: graph_skew_def str_nat.simps digit_def)
  from C2_new_edge [OF pick_vertex_graph_skew_1 pick_point_graph_skew_1 too_close_graph_skew_1 h4 h5
        make_new_vertex_graph_skew] ne
  have "neighbors_of graph_skew_grown (KStr (str_nat (length graph_skew))) = Some [KStr ''1''] \<and>
        neighbors_of graph_skew_grown (KStr ''1'') = neighbors_of graph_skew (KStr ''1'') \<and>
        {KStr (str_nat (length graph_skew)), KStr ''1''} \<in> set (edges graph_skew_grown)"
    by blast
  with pick_vertex_graph_skew_1 [of "[1, 0, 1, 0]"] pick_point_graph_skew_1 [of "[]"]
    too_close_graph_skew_1 h4 h5 make_new_vertex_graph_skew [of "[]"]
  show ?thesis by blast
qed

section \<open>Reinforcement after a discarded attempt\<close>

lemma reinforce_all_append:
  "reinforce_all graph (seeds @ [seed]) =
     (case reinforce_all graph seeds of
        Raised e g \<Rightarrow> Raised e g
      | Returned graph' \<Rightarrow> set_active_states graph' seed)"
proof (induction seeds arbitrary: graph)
  case Nil
  show ?case by (simp split: result.splits)
next
  case (Cons a seeds)
  then show ?case by (simp split: result.splits)
qed

text \<open>
  Claim C10: in \<^verbatim>\<open>make_new_vertex\<close> the call \<^verbatim>\<open>set_active_states(expansion_vertex)\<close> follows the
  \<^verbatim>\<open>if\<close> statement on every level of the recursion. A growth step with \<open>k\<close> discarded attempts
  selects \<open>k + 1\<close> times on the unchanged graph, inserts the vertex of the last attempt, and
  then runs \<open>k + 1\<close> reinforcement passes: the first seeded at the expansion vertex of the
  attempt that inserted, the others at the expansion vertices of the discarded attempts,
  the latest attempt first. A raise in the selection leaves the graph as it was; a raise
  in a pass ends the step with the graph of that moment.
\<close>

theorem C10_retry_reinforces:
  "make_new_vertex graph draws =
     (case attempts graph draws of
        Inl e \<Rightarrow> Raised e graph
      | Inr (discarded, v, p, rest) \<Rightarrow>
          (case reinforce_all
                  (add_vertex graph (KStr (str_nat (length graph))) (Some [v]) (Some p) 1)
                  (v # rev discarded) of
             Raised e g \<Rightarrow> Raised e g
           | Returned graph' \<Rightarrow> Returned (graph', rest)))"
proof (induction graph draws rule: attempts.induct)
  case (1 graph draws)
  show ?case
  proof (cases "pick_expansion_vertex graph draws")
    case (Inl e)
    then show ?thesis
      by (subst make_new_vertex.simps, subst attempts.simps) simp
  next
    case (Inr a)
    obtain v draws1 where a: "a = (v, draws1)" by (cases a)
    show ?thesis
    proof (cases "pick_expansion_point graph v draws1")
      case (Inl e)
      with Inr a show ?thesis
        by (subst make_new_vertex.simps, subst attempts.simps) simp
    next
      case b: (Inr b)
      obtain p draws2 where bp: "b = (p, draws2)" by (cases b)
      show ?thesis
      proof (cases "is_too_close graph p")
        case (Inl e)
        with Inr a b bp show ?thesis
          by (subst make_new_vertex.simps, subst attempts.simps) simp
      next
        case c: (Inr near)
        show ?thesis
        proof (cases "truthy near \<and> Some v \<noteq> near")
          case False
          with Inr a b bp c show ?thesis
            by (subst make_new_vertex.simps, subst attempts.simps)
               (auto split: result.splits)
        next
          case True
          from "1.IH" [OF Inr a [symmetric] b bp [symmetric] c True]
          have IH: "make_new_vertex graph draws2 =
            (case attempts graph draws2 of
               Inl e \<Rightarrow> Raised e graph
             | Inr (discarded, v, p, rest) \<Rightarrow>
                 (case reinforce_all
                         (add_vertex graph (KStr (str_nat (length graph))) (Some [v]) (Some p) 1)
                         (v # rev discarded) of
                    Raised e g \<Rightarrow> Raised e g
                  | Returned graph' \<Rightarrow> Returned (graph', rest)))" .
          have m: "make_new_vertex graph draws =
            (case make_new_vertex graph draws2 of
               Raised e g \<Rightarrow> Raised e g
             | Returned (graph', draws3) \<Rightarrow>
                 (case set_active_states graph' v of
                    Raised e g \<Rightarrow> Raised e g
                  | Returned graph'' \<Rightarrow> Returned (graph'', draws3)))"
            using Inr a b bp c True by (subst make_new_vertex.simps) simp
          have t: "attempts graph draws =
            (case attempts graph draws2 of
               Inl e \<Rightarrow> Inl e
             | Inr (discarded, v', p', rest) \<Rightarrow> Inr (v # discarded, v', p', rest))"
            using Inr a b bp c True by (subst attempts.simps) simp
          show ?thesis
          proof (cases "attempts graph draws2")
            case (Inl e)
            with IH m t show ?thesis by simp
          next
            case d: (Inr d)
            obtain vs v' p' rest where dd: "d = (vs, v', p', rest)" by (cases d)
            have ap: "reinforce_all
                (add_vertex graph (KStr (str_nat (length graph))) (Some [v']) (Some p') 1)
                (v' # rev (v # vs)) =
              (case reinforce_all
                      (add_vertex graph (KStr (str_nat (length graph))) (Some [v']) (Some p') 1)
                      (v' # rev vs) of
                 Raised e g \<Rightarrow> Raised e g
               | Returned graph' \<Rightarrow> set_active_states graph' v)"
              using reinforce_all_append
                [of "add_vertex graph (KStr (str_nat (length graph))) (Some [v']) (Some p') 1"
                    "v' # rev vs" v]
              by simp
            from IH d dd have IH': "make_new_vertex graph draws2 =
                 (case reinforce_all
                         (add_vertex graph (KStr (str_nat (length graph))) (Some [v']) (Some p') 1)
                         (v' # rev vs) of
                    Raised e g \<Rightarrow> Raised e g
                  | Returned graph' \<Rightarrow> Returned (graph', rest))" by simp
            from t d dd have t': "attempts graph draws = Inr (v # vs, v', p', rest)" by simp
            show ?thesis
              by (simp only: t' m IH' ap sum.case prod.case) (simp split: result.splits)
          qed
        qed
      qed
    qed
  qed
qed


lemma bump_c005: "bump c005 = 2 * c005"
proof -
  have "bump c005 = bump (bump 0)" by (simp only: bump_zero)
  also have "\<dots> = (bump ^^ 2) 0" by (simp add: numeral_2_eq_2)
  also have "\<dots> = 2 * c005" by (simp only: burnt_after_2) (simp add: scaled_def c005_def)
  finally show ?thesis .
qed

lemma c005_less: "c005 < 15"
  by (simp add: c005_def)

lemma double_round_twice_c005: "double_round (2 * c005) = 2 * c005"
  using bump_c005 c005_bounds by (simp add: bump_def)

lemma pick_vertex_graph_skew_0:
  "pick_expansion_vertex graph_skew (1 / 4 # ds) = Inr (KStr ''0'', ds)"
  by (simp add: pick_expansion_vertex_def net_forces_graph_skew norms_graph_skew
        nan_add_def nan_sub_def nan_le_zero_def norm_nan_def)

lemma net_force_graph_skew_0:
  "net_force graph_skew (KStr ''0'') = Inr (18 / 5, - (24 / 5))"
  by (simp add: net_force_def vertices_def graph_skew_def force_def vadd_def power2_eq_square)

lemma norm_np_3_4: "norm_np (- 3, 4) = 5"
  by (rule norm_np_eq) simp_all

lemma pick_point_graph_skew_0:
  "pick_expansion_point graph_skew (KStr ''0'') (0 # 25 / 144 # 0 # 5 / 18 # ds) =
     Inr ((- (3 / 5), 4 / 5), ds)"
proof -
  have m: "map_of graph_skew (KStr ''0'') =
    Some \<lparr>weight = 5, neighbors = [KStr ''1''], loc = (0, 0), burnt = 0\<rparr>"
    by (simp add: graph_skew_def)
  show ?thesis
    by (simp add: pick_expansion_point_def net_force_graph_skew_0 Let_def m norm_np_3_4
          vadd_def r_def)
qed

lemma too_close_graph_skew_0:
  "is_too_close graph_skew (- (3 / 5), 4 / 5) = Inr (Some (KStr ''1''))"
  by (simp add: is_too_close_def graph_skew_def vsub_def norms_graph_skew r_def
        get_nearest_vertex_def)

lemma attempts_graph_skew_1:
  "attempts graph_skew (3 / 4 # 1 # 0 # 1 # 0 # ds) = Inr ([], KStr ''1'', (- (6 / 5), 8 / 5), ds)"
  by (subst attempts.simps)
     (simp add: pick_vertex_graph_skew_1 pick_point_graph_skew_1 too_close_graph_skew_1 truthy_def)

lemma attempts_graph_skew_0:
  "attempts graph_skew (1 / 4 # 0 # 25 / 144 # 0 # 5 / 18 # 3 / 4 # 1 # 0 # 1 # 0 # ds) =
     Inr ([KStr ''0''], KStr ''1'', (- (6 / 5), 8 / 5), ds)"
  by (subst attempts.simps)
     (simp add: pick_vertex_graph_skew_0 pick_point_graph_skew_0 too_close_graph_skew_0 truthy_def
        attempts_graph_skew_1)

lemma best_path_graph_skew_grown:
  "find_shortest_path graph_skew_grown (KStr ''0'') (KStr ''0'') = Inr [KStr ''0'']"
  by (simp add: find_shortest_path_def get_path_weights_def find_all_paths.simps graph_skew_grown_def)

lemma set_active_states_graph_skew_grown:
  "set_active_states graph_skew_grown (KStr ''0'') = Returned graph_skew_retried"
  by (simp add: set_active_states_def best_path_graph_skew_grown)
     (simp add: setdiff1d_def is_int_def np_str_def vertices_def c005_less
        double_round_twice_c005 reinforce_vertex_def decay_vertex_def graph_skew_grown_def
        graph_skew_retried_def)

lemma reinforce_all_graph_skew_added:
  "reinforce_all graph_skew_added [KStr ''1'', KStr ''0''] = Returned graph_skew_retried"
  by (simp add: set_active_states_graph_skew_added set_active_states_graph_skew_grown)

text \<open>
  On the skew graph the draws \<open>1/4\<close>, \<open>0\<close>, \<open>25/144\<close>, \<open>0\<close>, \<open>5/18\<close> select the vertex \<open>"0"\<close> and
  the position of \<open>"1"\<close>, so that the attempt is discarded; the draws \<open>3/4\<close>, \<open>1\<close>, \<open>0\<close>, \<open>1\<close>,
  \<open>0\<close> then insert \<open>"2"\<close> next to \<open>"1"\<close>. The step ends with the passes seeded at \<open>"1"\<close> and
  at \<open>"0"\<close>; against the step without the discarded attempt, the keys and the neighbour
  lists are the same, and the weights of \<open>"1"\<close> and \<open>"2"\<close> and the activation of \<open>"0"\<close> differ.
\<close>

theorem C10_retry_reinforces_witness:
  "attempts graph_skew [1 / 4, 0, 25 / 144, 0, 5 / 18, 3 / 4, 1, 0, 1, 0] =
     Inr ([KStr ''0''], KStr ''1'', (- (6 / 5), 8 / 5), []) \<and>
   add_vertex graph_skew (KStr (str_nat (length graph_skew))) (Some [KStr ''1''])
     (Some (- (6 / 5), 8 / 5)) 1 = graph_skew_added \<and>
   set_active_states graph_skew_added (KStr ''1'') = Returned graph_skew_grown \<and>
   set_active_states graph_skew_grown (KStr ''0'') = Returned graph_skew_retried \<and>
   make_new_vertex graph_skew [1 / 4, 0, 25 / 144, 0, 5 / 18, 3 / 4, 1, 0, 1, 0] =
     Returned (graph_skew_retried, []) \<and>
   make_new_vertex graph_skew [3 / 4, 1, 0, 1, 0] = Returned (graph_skew_grown, []) \<and>
   map fst graph_skew_retried = map fst graph_skew_grown \<and>
   map (\<lambda>(k, v). neighbors v) graph_skew_retried = map (\<lambda>(k, v). neighbors v) graph_skew_grown \<and>
   map (\<lambda>(k, v). weight v) graph_skew_grown = [5, 1100 / 1000, 975 / 1000] \<and>
   map (\<lambda>(k, v). weight v) graph_skew_retried = [5, 1075 / 1000, 950 / 1000] \<and>
   map (\<lambda>(k, v). burnt v) graph_skew_grown = [c005, c005, 0] \<and>
   map (\<lambda>(k, v). burnt v) graph_skew_retried = [2 * c005, c005, 0]"
proof -
  have m: "make_new_vertex graph_skew [1 / 4, 0, 25 / 144, 0, 5 / 18, 3 / 4, 1, 0, 1, 0] =
     Returned (graph_skew_retried, [])"
    using C10_retry_reinforces [of graph_skew "[1 / 4, 0, 25 / 144, 0, 5 / 18, 3 / 4, 1, 0, 1, 0]"]
    by (simp add: attempts_graph_skew_0 add_vertex_graph_skew
          set_active_states_graph_skew_added set_active_states_graph_skew_grown)
  have f: "map fst graph_skew_retried = map fst graph_skew_grown"
    "map (\<lambda>(k, v). neighbors v) graph_skew_retried = map (\<lambda>(k, v). neighbors v) graph_skew_grown"
    "map (\<lambda>(k, v). weight v) graph_skew_grown = [5, 1100 / 1000, 975 / 1000]"
    "map (\<lambda>(k, v). weight v) graph_skew_retried = [5, 1075 / 1000, 950 / 1000]"
    "map (\<lambda>(k, v). burnt v) graph_skew_grown = [c005, c005, 0]"
    "map (\<lambda>(k, v). burnt v) graph_skew_retried = [2 * c005, c005, 0]"
    by (simp_all add: graph_skew_retried_def graph_skew_grown_def)
  from m f attempts_graph_skew_0 [of "[]"] add_vertex_graph_skew set_active_states_graph_skew_added
    set_active_states_graph_skew_grown make_new_vertex_graph_skew [of "[]"]
  show ?thesis by simp
qed

end
